theory Spec2Isabelle
  imports Main "HOL-Library.Word"
begin

unbundle bit_operations_syntax

section \<open>Machine types and the borrowed file buffer\<close>

text \<open>
  The code runs on a 64-bit little-endian host (\<open>mach_header_64\<close>): pointers, \<open>size_t\<close>
  and \<open>uintptr_t\<close> are 64-bit words whose arithmetic wraps, \<open>uint32_t\<close> fields are
  32-bit words. A pointer is its address; \<open>NULL\<close> is address 0.
\<close>

type_synonym u8 = "8 word"
type_synonym u32 = "32 word"
type_synonym u64 = "64 word"
type_synonym addr = "64 word"

definition NULL :: addr where
  "NULL = 0"

text \<open>
  The caller's buffer: the bytes of memory, the address \<open>file\<close> points to and the
  \<open>size\<close> passed with it. Every read of the code goes through \<open>load8\<close>, \<open>load32\<close> or
  \<open>load_bytes\<close>, which report a read of any byte outside \<open>[base, base + extent)\<close>, or
  past the end of the address space, as the fault \<open>OutOfBounds\<close> instead of returning
  whatever lies there.
\<close>

record image =
  bytes_at :: "addr \<Rightarrow> u8"
  base :: addr
  extent :: u64

datatype fault = OutOfBounds

type_synonym 'a res = "fault + 'a"

definition in_image :: "image \<Rightarrow> addr \<Rightarrow> nat \<Rightarrow> bool" where
  "in_image I p n \<longleftrightarrow>
     unat (base I) \<le> unat p \<and> unat p + n \<le> unat (base I) + unat (extent I) \<and>
     unat p + n \<le> 2 ^ 64"

definition le32 :: "u8 \<Rightarrow> u8 \<Rightarrow> u8 \<Rightarrow> u8 \<Rightarrow> u32" where
  "le32 b0 b1 b2 b3 =
     ucast b0 OR push_bit 8 (ucast b1) OR push_bit 16 (ucast b2) OR push_bit 24 (ucast b3)"

text \<open>The value of a native (little-endian) \<open>uint32_t\<close> field at \<open>p\<close>.\<close>

definition peek32 :: "image \<Rightarrow> addr \<Rightarrow> u32" where
  "peek32 I p = le32 (bytes_at I p) (bytes_at I (p + 1)) (bytes_at I (p + 2)) (bytes_at I (p + 3))"

definition load8 :: "image \<Rightarrow> addr \<Rightarrow> u8 res" where
  "load8 I p = (if in_image I p 1 then Inr (bytes_at I p) else Inl OutOfBounds)"

definition load32 :: "image \<Rightarrow> addr \<Rightarrow> u32 res" where
  "load32 I p = (if in_image I p 4 then Inr (peek32 I p) else Inl OutOfBounds)"

text \<open>The \<open>n\<close> bytes at \<open>p\<close>, as the digest functions read them.\<close>

definition load_bytes :: "image \<Rightarrow> addr \<Rightarrow> nat \<Rightarrow> u8 list res" where
  "load_bytes I p n =
     (if n = 0 \<or> in_image I p n
      then Inr (map (\<lambda>k. bytes_at I (p + of_nat k)) [0..<n])
      else Inl OutOfBounds)"

text \<open>\<open>ntohl\<close> on a little-endian host: the four bytes in reverse order.\<close>

definition ntohl :: "u32 \<Rightarrow> u32" where
  "ntohl x = le32 (ucast (drop_bit 24 x)) (ucast (drop_bit 16 x)) (ucast (drop_bit 8 x)) (ucast x)"

section \<open>Constants and layouts of the binary format\<close>

text \<open>
  Modelled from the spec: section 6 lists the binary-format constants the code consumes
  (the Mach-O magic, the code-signature load command, the blob magics, the slot types,
  the hash types, \<open>CS_CDHASH_LEN = 20\<close>) as fixed by the format; their declarations
  (\<open>cdhash.h\<close> and the system header \<open>mach-o/loader.h\<close>) are not among the sources.
  The values and field offsets below are those of the format's public headers
  (\<open>mach-o/loader.h\<close> and the \<open>cs_blobs.h\<close> of xnu-4570.41.2, the version the source cites).
\<close>

definition MH_MAGIC_64 :: u32 where
  "MH_MAGIC_64 = 0xfeedfacf"

definition LC_CODE_SIGNATURE :: u32 where
  "LC_CODE_SIGNATURE = 0x1d"

definition sizeof_mach_header_64 :: u64 where
  "sizeof_mach_header_64 = 32"

definition off_sizeofcmds :: u64 where
  "off_sizeofcmds = 20"

definition off_cmdsize :: u64 where
  "off_cmdsize = 4"

definition off_dataoff :: u64 where
  "off_dataoff = 8"

definition off_datasize :: u64 where
  "off_datasize = 12"

definition CSMAGIC_CODEDIRECTORY :: u32 where
  "CSMAGIC_CODEDIRECTORY = 0xfade0c02"

definition CSMAGIC_EMBEDDED_SIGNATURE :: u32 where
  "CSMAGIC_EMBEDDED_SIGNATURE = 0xfade0cc0"

definition CSSLOT_CODEDIRECTORY :: u32 where
  "CSSLOT_CODEDIRECTORY = 0"

definition CSSLOT_ALTERNATE_CODEDIRECTORIES :: u32 where
  "CSSLOT_ALTERNATE_CODEDIRECTORIES = 0x1000"

definition CSSLOT_ALTERNATE_CODEDIRECTORY_LIMIT :: u32 where
  "CSSLOT_ALTERNATE_CODEDIRECTORY_LIMIT = 0x1005"

definition CS_HASHTYPE_SHA1 :: u32 where
  "CS_HASHTYPE_SHA1 = 1"

definition CS_HASHTYPE_SHA256 :: u32 where
  "CS_HASHTYPE_SHA256 = 2"

definition CS_HASHTYPE_SHA256_TRUNCATED :: u32 where
  "CS_HASHTYPE_SHA256_TRUNCATED = 3"

definition CS_HASHTYPE_SHA384 :: u32 where
  "CS_HASHTYPE_SHA384 = 4"

definition CS_CDHASH_LEN :: nat where
  "CS_CDHASH_LEN = 20"

definition sizeof_CS_GenericBlob :: u64 where
  "sizeof_CS_GenericBlob = 8"

definition sizeof_CS_SuperBlob :: u64 where
  "sizeof_CS_SuperBlob = 12"

definition sizeof_CS_BlobIndex :: u64 where
  "sizeof_CS_BlobIndex = 8"

definition sizeof_CS_CodeDirectory :: u64 where
  "sizeof_CS_CodeDirectory = 88"

definition off_length :: u64 where
  "off_length = 4"

definition off_count :: u64 where
  "off_count = 8"

definition off_hashType :: u64 where
  "off_hashType = 37"

definition off_offset :: u64 where
  "off_offset = 4"

text \<open>The address \<open>&sb->index[i]\<close>.\<close>

definition index_entry :: "addr \<Rightarrow> u64 \<Rightarrow> addr" where
  "index_entry sb i = sb + sizeof_CS_SuperBlob + sizeof_CS_BlobIndex * i"

text \<open>
  The digest engine, \<open>CC_SHA1\<close> and \<open>CC_SHA256\<close> of CommonCrypto, is a trusted library
  outside the code: the functions take it as a parameter.
\<close>

record digests =
  CC_SHA1 :: "u8 list \<Rightarrow> u8 list"
  CC_SHA256 :: "u8 list \<Rightarrow> u8 list"

text \<open>
  What a function with the out-parameter \<open>cdhash\<close> returns: its \<open>bool\<close>, and the bytes
  its \<open>memcpy\<close> stored into the caller's buffer, \<open>None\<close> when no store was executed.
\<close>

type_synonym hashed = "bool \<times> u8 list option"

definition failed :: hashed where
  "failed = (False, None)"

section \<open>The Mach-O reader\<close>

definition macho_identify :: "image \<Rightarrow> addr \<Rightarrow> u64 \<Rightarrow> bool res" where
  "macho_identify I mh sz =
     (if sz < 0x1000 then Inr False
      else (case load32 I mh of
              Inl e \<Rightarrow> Inl e
            | Inr magic \<Rightarrow> if magic \<noteq> MH_MAGIC_64 then Inr False else Inr True))"

text \<open>
  The \<open>while (lc_p < lc_end)\<close> loop of \<open>macho_validate\<close>. Nothing in it forces progress, so
  it is a partial function: \<open>None\<close> is a walk that never returns.
\<close>

partial_function (option) macho_validate_walk :: "image \<Rightarrow> addr \<Rightarrow> addr \<Rightarrow> bool res option" where
  "macho_validate_walk I lc_p lc_end =
     (if lc_p < lc_end then
        (case load32 I (lc_p + off_cmdsize) of
           Inl e \<Rightarrow> Some (Inl e)
         | Inr cmdsize \<Rightarrow>
             if cmdsize \<ge> 0x80000000 then Some (Inr False)
             else (let lc_next = lc_p + ucast cmdsize in
                   if lc_next > lc_end then Some (Inr False)
                   else macho_validate_walk I lc_next lc_end))
      else Some (Inr True))"

definition macho_validate :: "image \<Rightarrow> addr \<Rightarrow> u64 \<Rightarrow> bool res option" where
  "macho_validate I mh sz =
     (case macho_identify I mh sz of
        Inl e \<Rightarrow> Some (Inl e)
      | Inr ident \<Rightarrow>
          if \<not> ident then Some (Inr False)
          else (case load32 I (mh + off_sizeofcmds) of
                  Inl e \<Rightarrow> Some (Inl e)
                | Inr sizeofcmds \<Rightarrow>
                    if ucast sizeofcmds > sz then Some (Inr False)
                    else (let lc_p = mh + sizeof_mach_header_64;
                              lc_end = lc_p + ucast sizeofcmds
                          in macho_validate_walk I lc_p lc_end)))"

definition macho_next_load_command :: "image \<Rightarrow> addr \<Rightarrow> u64 \<Rightarrow> addr \<Rightarrow> addr res" where
  "macho_next_load_command I mh sz lc =
     (case (if lc = NULL then Inr (mh + sizeof_mach_header_64)
            else (case load32 I (lc + off_cmdsize) of
                    Inl e \<Rightarrow> Inl e
                  | Inr cmdsize \<Rightarrow> Inr (lc + ucast cmdsize))) of
        Inl e \<Rightarrow> Inl e
      | Inr next \<Rightarrow>
          (case load32 I (mh + off_sizeofcmds) of
             Inl e \<Rightarrow> Inl e
           | Inr sizeofcmds \<Rightarrow>
               if next \<ge> mh + sizeof_mach_header_64 + ucast sizeofcmds then Inr NULL
               else Inr next))"

partial_function (option) macho_find_load_command ::
    "image \<Rightarrow> addr \<Rightarrow> u64 \<Rightarrow> u32 \<Rightarrow> addr \<Rightarrow> addr res option" where
  "macho_find_load_command I mh sz command lc =
     (case macho_next_load_command I mh sz lc of
        Inl e \<Rightarrow> Some (Inl e)
      | Inr loadcmd \<Rightarrow>
          if loadcmd = NULL then Some (Inr loadcmd)
          else (case load32 I loadcmd of
                  Inl e \<Rightarrow> Some (Inl e)
                | Inr cmd \<Rightarrow>
                    if cmd = command then Some (Inr loadcmd)
                    else macho_find_load_command I mh sz command loadcmd))"

section \<open>The code-directory reader\<close>

definition cs_codedirectory_validate :: "image \<Rightarrow> addr \<Rightarrow> u64 \<Rightarrow> u64 res" where
  "cs_codedirectory_validate I cd sz =
     (if sz < sizeof_CS_CodeDirectory then Inr 0
      else (case load32 I cd of
              Inl e \<Rightarrow> Inl e
            | Inr m \<Rightarrow>
                (let magic = ntohl m in
                 if magic \<noteq> CSMAGIC_CODEDIRECTORY then Inr 0
                 else (case load32 I (cd + off_length) of
                         Inl e \<Rightarrow> Inl e
                       | Inr l \<Rightarrow>
                           (let len = ntohl l in
                            if ucast len > sz then Inr 0
                            else Inr (ucast len))))))"

definition cs_superblob_validate :: "image \<Rightarrow> addr \<Rightarrow> u64 \<Rightarrow> u64 res" where
  "cs_superblob_validate I sb sz =
     (if sz < sizeof_CS_SuperBlob then Inr 0
      else (case load32 I sb of
              Inl e \<Rightarrow> Inl e
            | Inr m \<Rightarrow>
                (let magic = ntohl m in
                 if magic \<noteq> CSMAGIC_EMBEDDED_SIGNATURE then Inr 0
                 else (case load32 I (sb + off_length) of
                         Inl e \<Rightarrow> Inl e
                       | Inr l \<Rightarrow>
                           (let len = ntohl l in
                            if ucast len > sz then Inr 0
                            else (case load32 I (sb + off_count) of
                                    Inl e \<Rightarrow> Inl e
                                  | Inr c \<Rightarrow>
                                      (let count = ntohl c;
                                           index = index_entry sb (ucast count)
                                       in if count \<ge> 0x10000 \<or> index > sb + sz then Inr 0
                                          else Inr (ucast len))))))))"

definition cdhash_sha1 :: "image \<Rightarrow> digests \<Rightarrow> addr \<Rightarrow> u64 \<Rightarrow> u8 list res" where
  "cdhash_sha1 I D cd len =
     (case load_bytes I cd (unat (ucast len :: u32)) of
        Inl e \<Rightarrow> Inl e
      | Inr data \<Rightarrow> Inr (take CS_CDHASH_LEN (CC_SHA1 D data)))"

definition cdhash_sha256 :: "image \<Rightarrow> digests \<Rightarrow> addr \<Rightarrow> u64 \<Rightarrow> u8 list res" where
  "cdhash_sha256 I D cd len =
     (case load_bytes I cd (unat (ucast len :: u32)) of
        Inl e \<Rightarrow> Inl e
      | Inr data \<Rightarrow> Inr (take CS_CDHASH_LEN (CC_SHA256 D data)))"

definition cs_codedirectory_cdhash :: "image \<Rightarrow> digests \<Rightarrow> addr \<Rightarrow> u64 \<Rightarrow> hashed res" where
  "cs_codedirectory_cdhash I D cd sz =
     (case load32 I (cd + off_length) of
        Inl e \<Rightarrow> Inl e
      | Inr l \<Rightarrow>
          (let len = (ucast (ntohl l) :: u64) in
           (case load8 I (cd + off_hashType) of
              Inl e \<Rightarrow> Inl e
            | Inr hashType \<Rightarrow>
                if ucast hashType = CS_HASHTYPE_SHA1 then
                  (case cdhash_sha1 I D cd len of
                     Inl e \<Rightarrow> Inl e
                   | Inr cdhash \<Rightarrow> Inr (True, Some cdhash))
                else if ucast hashType = CS_HASHTYPE_SHA256 then
                  (case cdhash_sha256 I D cd len of
                     Inl e \<Rightarrow> Inl e
                   | Inr cdhash \<Rightarrow> Inr (True, Some cdhash))
                else Inr failed)))"

definition ranked_hash_types :: "u32 list" where
  "ranked_hash_types =
     [CS_HASHTYPE_SHA1, CS_HASHTYPE_SHA256_TRUNCATED, CS_HASHTYPE_SHA256, CS_HASHTYPE_SHA384]"

function rank_scan :: "u8 \<Rightarrow> nat \<Rightarrow> u32" where
  "rank_scan hashType i =
     (if i < length ranked_hash_types then
        (if ranked_hash_types ! i = ucast hashType then of_nat (i + 1)
         else rank_scan hashType (i + 1))
      else 0)"
  by pat_completeness auto
termination
  by (relation "measure (\<lambda>(h, i). length ranked_hash_types - i)") auto

declare rank_scan.simps [simp del]

definition cs_codedirectory_rank :: "image \<Rightarrow> addr \<Rightarrow> u32 res" where
  "cs_codedirectory_rank I cd =
     (case load8 I (cd + off_hashType) of
        Inl e \<Rightarrow> Inl e
      | Inr hashType \<Rightarrow> Inr (rank_scan hashType 0))"

section \<open>The super-blob reader\<close>

text \<open>The three locals of \<open>cs_superblob_cdhash\<close> that hold the best code directory so far.\<close>

record best =
  best_cd :: addr
  best_cd_rank :: u32
  best_cd_size :: u64

definition no_best :: best where
  "no_best = \<lparr>best_cd = NULL, best_cd_rank = 0, best_cd_size = 0\<rparr>"

text \<open>
  The \<open>for\<close> loop of \<open>cs_superblob_cdhash\<close> from index \<open>i\<close> on: \<open>Inr None\<close> is one of its
  two \<open>return false\<close>, \<open>Inr (Some b)\<close> the locals when the loop ends.
\<close>

function cs_superblob_scan ::
    "image \<Rightarrow> addr \<Rightarrow> u64 \<Rightarrow> u64 \<Rightarrow> u64 \<Rightarrow> best \<Rightarrow> best option res" where
  "cs_superblob_scan I sb sz count i b =
     (if i < count then
        (let index = index_entry sb i in
         (case load32 I index of
            Inl e \<Rightarrow> Inl e
          | Inr t \<Rightarrow>
              (let slot = ntohl t in
               (case load32 I (index + off_offset) of
                  Inl e \<Rightarrow> Inl e
                | Inr off \<Rightarrow>
                    (let offset = ntohl off in
                     if ucast offset > sz then Inr None
                     else if slot = CSSLOT_CODEDIRECTORY \<or>
                             (CSSLOT_ALTERNATE_CODEDIRECTORIES \<le> slot \<and>
                              slot < CSSLOT_ALTERNATE_CODEDIRECTORY_LIMIT) then
                       (let cd = sb + ucast offset in
                        (case cs_codedirectory_validate I cd (sz - ucast offset) of
                           Inl e \<Rightarrow> Inl e
                         | Inr cd_size \<Rightarrow>
                             if cd_size = 0 then Inr None
                             else (case cs_codedirectory_rank I cd of
                                     Inl e \<Rightarrow> Inl e
                                   | Inr cd_rank \<Rightarrow>
                                       cs_superblob_scan I sb sz count (i + 1)
                                         (if cd_rank > best_cd_rank b
                                          then \<lparr>best_cd = cd, best_cd_rank = cd_rank,
                                                 best_cd_size = cd_size\<rparr>
                                          else b))))
                     else cs_superblob_scan I sb sz count (i + 1) b)))))
      else Inr (Some b))"
  by pat_completeness auto
termination
proof (relation "measure (\<lambda>(I, sb, sz, count, i, b). unat count - unat i)")
qed (simp, (simp, unat_arith)+)

declare cs_superblob_scan.simps [simp del]

definition cs_superblob_cdhash :: "image \<Rightarrow> digests \<Rightarrow> addr \<Rightarrow> u64 \<Rightarrow> hashed res" where
  "cs_superblob_cdhash I D sb sz =
     (case load32 I (sb + off_count) of
        Inl e \<Rightarrow> Inl e
      | Inr c \<Rightarrow>
          (let count = (ucast (ntohl c) :: u64) in
           (case cs_superblob_scan I sb sz count 0 no_best of
              Inl e \<Rightarrow> Inl e
            | Inr None \<Rightarrow> Inr failed
            | Inr (Some b) \<Rightarrow>
                if best_cd b = NULL then Inr failed
                else cs_codedirectory_cdhash I D (best_cd b) (best_cd_size b))))"

section \<open>The generic-blob dispatcher\<close>

definition csblob_cdhash :: "image \<Rightarrow> digests \<Rightarrow> addr \<Rightarrow> u64 \<Rightarrow> hashed res" where
  "csblob_cdhash I D blob sz =
     (if sz < sizeof_CS_GenericBlob then Inr failed
      else (case load32 I blob of
              Inl e \<Rightarrow> Inl e
            | Inr m \<Rightarrow>
                (let magic = ntohl m in
                 (case load32 I (blob + off_length) of
                    Inl e \<Rightarrow> Inl e
                  | Inr l \<Rightarrow>
                      (let len = (ucast (ntohl l) :: u64) in
                       if len > sz then Inr failed
                       else if magic = CSMAGIC_EMBEDDED_SIGNATURE then
                         (case cs_superblob_validate I blob len of
                            Inl e \<Rightarrow> Inl e
                          | Inr v \<Rightarrow>
                              (let ok = (v \<noteq> 0) in
                               if \<not> ok then Inr failed
                               else cs_superblob_cdhash I D blob len))
                       else if magic = CSMAGIC_CODEDIRECTORY then
                         (case cs_codedirectory_validate I blob len of
                            Inl e \<Rightarrow> Inl e
                          | Inr v \<Rightarrow>
                              (let ok = (v \<noteq> 0) in
                               if \<not> ok then Inr failed
                               else cs_codedirectory_cdhash I D blob len))
                       else Inr failed)))))"

section \<open>The Mach-O signature region and the entry point\<close>

definition compute_cdhash_macho :: "image \<Rightarrow> digests \<Rightarrow> addr \<Rightarrow> u64 \<Rightarrow> hashed res option" where
  "compute_cdhash_macho I D mh sz =
     (case macho_find_load_command I mh sz LC_CODE_SIGNATURE NULL of
        None \<Rightarrow> None
      | Some (Inl e) \<Rightarrow> Some (Inl e)
      | Some (Inr cs_cmd) \<Rightarrow>
          if cs_cmd = NULL then Some (Inr failed)
          else (case load32 I (cs_cmd + off_dataoff) of
                  Inl e \<Rightarrow> Some (Inl e)
                | Inr dataoff \<Rightarrow>
                    (case load32 I (cs_cmd + off_datasize) of
                       Inl e \<Rightarrow> Some (Inl e)
                     | Inr datasize \<Rightarrow>
                         (let cs_data = mh + ucast dataoff;
                              cs_end = cs_data + ucast datasize
                          in if \<not> (mh < cs_data \<and> cs_data < cs_end \<and> cs_end \<le> mh + sz)
                             then Some (Inr failed)
                             else Some (csblob_cdhash I D cs_data (cs_end - cs_data))))))"

text \<open>
  \<open>compute_cdhash file size cdhash\<close>: the buffer the reads are checked against is the one the
  caller passes, \<open>size\<close> bytes at \<open>file\<close>. The result is \<open>None\<close> when the call never returns,
  \<open>Some (Inl OutOfBounds)\<close> when it reads outside the buffer, and otherwise the returned
  \<open>bool\<close> with the bytes stored to \<open>cdhash\<close>.
\<close>

definition compute_cdhash :: "(addr \<Rightarrow> u8) \<Rightarrow> digests \<Rightarrow> addr \<Rightarrow> u64 \<Rightarrow> hashed res option" where
  "compute_cdhash m D file sz =
     (let I = \<lparr>bytes_at = m, base = file, extent = sz\<rparr>; mh = file in
      (case macho_identify I mh sz of
         Inl e \<Rightarrow> Some (Inl e)
       | Inr ident \<Rightarrow>
           if ident then
             (case macho_validate I mh sz of
                None \<Rightarrow> None
              | Some (Inl e) \<Rightarrow> Some (Inl e)
              | Some (Inr valid) \<Rightarrow>
                  if \<not> valid then Some (Inr failed)
                  else compute_cdhash_macho I D mh sz)
           else Some (Inr failed)))"

section \<open>The fields the statements speak of\<close>

text \<open>
  The big-endian fields of the signature structures as the code decodes them (\<open>ntohl\<close> of the
  native read), without the bounds check of \<open>load32\<close>: the statements below name the magic,
  the declared length and the hash type of a code directory, and the type and offset of the
  \<open>i\<close>-th entry of a super-blob's index, through them.
\<close>

definition be32 :: "image \<Rightarrow> addr \<Rightarrow> u32" where
  "be32 I p = ntohl (peek32 I p)"

definition cd_magic :: "image \<Rightarrow> addr \<Rightarrow> u32" where
  "cd_magic I cd = be32 I cd"

definition cd_length :: "image \<Rightarrow> addr \<Rightarrow> u32" where
  "cd_length I cd = be32 I (cd + off_length)"

definition cd_hashType :: "image \<Rightarrow> addr \<Rightarrow> u8" where
  "cd_hashType I cd = bytes_at I (cd + off_hashType)"

definition sb_count :: "image \<Rightarrow> addr \<Rightarrow> u32" where
  "sb_count I sb = be32 I (sb + off_count)"

definition entry_type :: "image \<Rightarrow> addr \<Rightarrow> u64 \<Rightarrow> u32" where
  "entry_type I sb i = be32 I (index_entry sb i)"

definition entry_offset :: "image \<Rightarrow> addr \<Rightarrow> u64 \<Rightarrow> u32" where
  "entry_offset I sb i = be32 I (index_entry sb i + off_offset)"

text \<open>The entry's slot type is one \<open>cs_superblob_cdhash\<close> looks for a code directory in.\<close>

definition qualifying :: "image \<Rightarrow> addr \<Rightarrow> u64 \<Rightarrow> bool" where
  "qualifying I sb i \<longleftrightarrow>
     entry_type I sb i = CSSLOT_CODEDIRECTORY \<or>
     (CSSLOT_ALTERNATE_CODEDIRECTORIES \<le> entry_type I sb i \<and>
      entry_type I sb i < CSSLOT_ALTERNATE_CODEDIRECTORY_LIMIT)"

text \<open>The code directory the entry points to, and what the loop records when it takes it.\<close>

definition entry_cd :: "image \<Rightarrow> addr \<Rightarrow> u64 \<Rightarrow> addr" where
  "entry_cd I sb i = sb + ucast (entry_offset I sb i)"

definition entry_rank :: "image \<Rightarrow> addr \<Rightarrow> u64 \<Rightarrow> u32" where
  "entry_rank I sb i = rank_scan (cd_hashType I (entry_cd I sb i)) 0"

definition candidate :: "image \<Rightarrow> addr \<Rightarrow> u64 \<Rightarrow> best" where
  "candidate I sb i =
     \<lparr>best_cd = entry_cd I sb i, best_cd_rank = entry_rank I sb i,
      best_cd_size = ucast (cd_length I (entry_cd I sb i))\<rparr>"

text \<open>
  The entry's code directory is valid: \<open>cs_codedirectory_validate\<close>, called as the loop calls
  it, returns a length other than 0.
\<close>

definition valid_entry :: "image \<Rightarrow> addr \<Rightarrow> u64 \<Rightarrow> u64 \<Rightarrow> bool" where
  "valid_entry I sb sz i \<longleftrightarrow>
     (case cs_codedirectory_validate I (entry_cd I sb i) (sz - ucast (entry_offset I sb i)) of
        Inl e \<Rightarrow> False
      | Inr cd_size \<Rightarrow> cd_size \<noteq> 0)"

text \<open>
  The super-blob is in the buffer with its \<open>size\<close> bytes, and its index of \<open>count\<close> entries
  lies within these: what \<open>csblob_cdhash\<close> and \<open>cs_superblob_validate\<close> have checked when
  \<open>cs_superblob_cdhash\<close> is called.
\<close>

definition superblob_in_image :: "image \<Rightarrow> addr \<Rightarrow> u64 \<Rightarrow> bool" where
  "superblob_in_image I sb sz \<longleftrightarrow>
     sb \<noteq> NULL \<and> in_image I sb (unat sz) \<and>
     unat sizeof_CS_SuperBlob + unat sizeof_CS_BlobIndex * unat (sb_count I sb) \<le> unat sz"

text \<open>
  The bytes of a code directory, \<open>length\<close> of them as it declares, and what
  \<open>cs_codedirectory_cdhash\<close> makes of them: the first \<open>CS_CDHASH_LEN\<close> bytes of the digest its
  hash type names, stored to \<open>cdhash\<close>, or failure.
\<close>

definition cd_bytes :: "image \<Rightarrow> addr \<Rightarrow> u8 list" where
  "cd_bytes I cd = map (\<lambda>k. bytes_at I (cd + of_nat k)) [0..<unat (cd_length I cd)]"

definition cd_digest :: "image \<Rightarrow> digests \<Rightarrow> addr \<Rightarrow> hashed" where
  "cd_digest I D cd =
     (if ucast (cd_hashType I cd) = CS_HASHTYPE_SHA1
        then (True, Some (take CS_CDHASH_LEN (CC_SHA1 D (cd_bytes I cd))))
      else if ucast (cd_hashType I cd) = CS_HASHTYPE_SHA256
        then (True, Some (take CS_CDHASH_LEN (CC_SHA256 D (cd_bytes I cd))))
      else failed)"

text \<open>
  What a call of \<open>compute_cdhash\<close> did: it returned \<open>true\<close>; it stored to the caller's
  \<open>cdhash\<close> buffer. A call that does not return, or that stops at a read outside the
  buffer, has done neither: the only stores of the code are the \<open>memcpy\<close> of \<open>cdhash_sha1\<close>
  and \<open>cdhash_sha256\<close>, after the last read and right before \<open>return true\<close>.
\<close>

definition returned_true :: "hashed res option \<Rightarrow> bool" where
  "returned_true r = (case r of Some (Inr (ok, out)) \<Rightarrow> ok | _ \<Rightarrow> False)"

definition cdhash_written :: "hashed res option \<Rightarrow> bool" where
  "cdhash_written r = (case r of Some (Inr (ok, out)) \<Rightarrow> out \<noteq> None | _ \<Rightarrow> False)"

section \<open>Concrete buffers\<close>

text \<open>
  Buffers the theorems below are evaluated on. Each is a 4096-byte file at address
  \<open>0x100000000\<close>, all zero except for the fields stored here.
\<close>

definition put8 :: "(addr \<Rightarrow> u8) \<Rightarrow> addr \<Rightarrow> u8 \<Rightarrow> (addr \<Rightarrow> u8)" where
  "put8 m a v = m(a := v)"

definition put32le :: "(addr \<Rightarrow> u8) \<Rightarrow> addr \<Rightarrow> u32 \<Rightarrow> (addr \<Rightarrow> u8)" where
  "put32le m a v =
     m(a := ucast v, a + 1 := ucast (drop_bit 8 v), a + 2 := ucast (drop_bit 16 v),
       a + 3 := ucast (drop_bit 24 v))"

definition put32be :: "(addr \<Rightarrow> u8) \<Rightarrow> addr \<Rightarrow> u32 \<Rightarrow> (addr \<Rightarrow> u8)" where
  "put32be m a v =
     m(a := ucast (drop_bit 24 v), a + 1 := ucast (drop_bit 16 v), a + 2 := ucast (drop_bit 8 v),
       a + 3 := ucast v)"

definition zeroes :: "addr \<Rightarrow> u8" where
  "zeroes = (\<lambda>a. 0)"

definition in_file :: "(addr \<Rightarrow> u8) \<Rightarrow> image" where
  "in_file m = \<lparr>bytes_at = m, base = 0x100000000, extent = 0x1000\<rparr>"

text \<open>
  A Mach-O header with \<open>sizeofcmds = 8\<close> whose only load command is all zero, so its
  \<open>cmdsize\<close> is 0.
\<close>

definition hang_file :: "addr \<Rightarrow> u8" where
  "hang_file = put32le (put32le zeroes 0x100000000 0xfeedfacf) 0x100000014 8"

text \<open>
  A Mach-O header with \<open>sizeofcmds = 0x1000\<close>, the size of the file, and a first load command
  of \<open>cmdsize = 0xfdc\<close>, which ends at offset \<open>0xffc\<close>: four bytes before the end of the
  file and 36 bytes before the end of the load commands.
\<close>

definition oob_file :: "addr \<Rightarrow> u8" where
  "oob_file =
     put32le (put32le (put32le zeroes 0x100000000 0xfeedfacf) 0x100000014 0x1000)
       0x100000024 0xfdc"

text \<open>A Mach-O header with no load command.\<close>

definition unsigned_file :: "addr \<Rightarrow> u8" where
  "unsigned_file = put32le zeroes 0x100000000 0xfeedfacf"

text \<open>
  A signed Mach-O file. Its one load command, at offset \<open>0x20\<close>, is \<open>LC_CODE_SIGNATURE\<close> with
  \<open>dataoff = 0x100\<close> and \<open>datasize = 0x200\<close>. The signature is a super-blob of length
  \<open>0x200\<close> with two index entries: entry 0 of type \<open>CSSLOT_CODEDIRECTORY\<close> at offset
  \<open>0x20\<close>, entry 1 of the first alternate type \<open>0x1000\<close> at offset \<open>0x80\<close>. Both point to a code
  directory with the right magic: the first declares length 88 and hash type \<open>h0\<close>, the
  second length 96 and hash type \<open>h1\<close>.
\<close>

definition signed_file :: "u8 \<Rightarrow> u8 \<Rightarrow> addr \<Rightarrow> u8" where
  "signed_file h0 h1 =
     put8 (put32be (put32be
     (put8 (put32be (put32be
     (put32be (put32be (put32be (put32be
     (put32be (put32be (put32be
     (put32le (put32le (put32le (put32le
     (put32le (put32le zeroes
        0x100000000 0xfeedfacf) 0x100000014 16)
        0x100000020 0x1d) 0x100000024 16) 0x100000028 0x100) 0x10000002c 0x200)
        0x100000100 0xfade0cc0) 0x100000104 0x200) 0x100000108 2)
        0x10000010c 0) 0x100000110 0x20) 0x100000114 0x1000) 0x100000118 0x80)
        0x100000120 0xfade0c02) 0x100000124 88) 0x100000145 h0)
        0x100000180 0xfade0c02) 0x100000184 96) 0x1000001a5 h1"

text \<open>
  The signed file (SHA-1, then SHA-256) with entry 1 turned into a slot of type 2, which is
  no code-directory slot, at offset \<open>0x201\<close>, one past the super-blob's length.
\<close>

definition far_file :: "addr \<Rightarrow> u8" where
  "far_file = put32be (put32be (signed_file 1 2) 0x100000114 2) 0x100000118 0x201"

text \<open>The signed file with the magic of the second code directory overwritten.\<close>

definition badcd_file :: "addr \<Rightarrow> u8" where
  "badcd_file = put32be (signed_file 1 2) 0x100000180 0"

text \<open>The signed file with the first code directory declaring a length of one byte.\<close>

definition short_file :: "addr \<Rightarrow> u8" where
  "short_file = put32be (signed_file 1 2) 0x100000124 1"


text \<open>
  A Mach-O header with \<open>sizeofcmds = 0xfe0\<close>, so that the load commands end where the file
  ends. The first load command, \<open>LC_SEGMENT_64\<close> at offset \<open>0x20\<close>, has \<open>cmdsize = 0xfd8\<close>; the
  second, at offset \<open>0xff8\<close>, is \<open>LC_CODE_SIGNATURE\<close> with \<open>cmdsize = 8\<close>: it ends with
  the file, eight bytes short of a \<open>linkedit_data_command\<close>, whose \<open>dataoff\<close> and \<open>datasize\<close>
  would be at offsets 4096 and 4100.
\<close>

definition tail_file :: "addr \<Rightarrow> u8" where
  "tail_file =
     put32le (put32le (put32le (put32le (put32le (put32le zeroes
        0x100000000 0xfeedfacf) 0x100000014 0xfe0)
        0x100000020 0x19) 0x100000024 0xfd8)
        0x100000ff8 0x1d) 0x100000ffc 8"

text \<open>
  A stand-in for the digest engine whose digests show how many bytes were hashed and by
  which function.
\<close>

definition toy_digests :: digests where
  "toy_digests =
     \<lparr>CC_SHA1 = (\<lambda>data. of_nat (length data) # replicate 19 0x11),
      CC_SHA256 = (\<lambda>data. of_nat (length data) # replicate 31 0x22)\<rparr>"

section \<open>Evaluating the concrete buffers\<close>

lemmas byte_defs = put8_def put32le_def put32be_def zeroes_def

lemmas read_defs = peek32_def le32_def ntohl_def be32_def in_file_def

lemma hang_fields:
  "peek32 (in_file hang_file) 0x100000000 = 0xfeedfacf"
  "peek32 (in_file hang_file) 0x100000014 = 8"
  "peek32 (in_file hang_file) 0x100000024 = 0"
  by (simp_all add: hang_file_def byte_defs read_defs)

lemma oob_fields:
  "peek32 (in_file oob_file) 0x100000000 = 0xfeedfacf"
  "peek32 (in_file oob_file) 0x100000014 = 0x1000"
  "peek32 (in_file oob_file) 0x100000024 = 0xfdc"
  by (simp_all add: oob_file_def byte_defs read_defs)

lemma unsigned_fields:
  "peek32 (in_file unsigned_file) 0x100000000 = 0xfeedfacf"
  "peek32 (in_file unsigned_file) 0x100000014 = 0"
  by (simp_all add: unsigned_file_def byte_defs read_defs)

lemma signed_macho_fields:
  "peek32 (in_file (signed_file h0 h1)) 0x100000000 = 0xfeedfacf"
  "peek32 (in_file (signed_file h0 h1)) 0x100000014 = 16"
  "peek32 (in_file (signed_file h0 h1)) 0x100000020 = 0x1d"
  "peek32 (in_file (signed_file h0 h1)) 0x100000024 = 16"
  "peek32 (in_file (signed_file h0 h1)) 0x100000028 = 0x100"
  "peek32 (in_file (signed_file h0 h1)) 0x10000002c = 0x200"
  "be32 (in_file (signed_file h0 h1)) 0x100000100 = 0xfade0cc0"
  "be32 (in_file (signed_file h0 h1)) 0x100000104 = 0x200"
  by (simp_all add: signed_file_def byte_defs read_defs)

lemma signed_fields:
  "be32 (in_file (signed_file h0 h1)) 0x100000108 = 2"
  "be32 (in_file (signed_file h0 h1)) 0x10000010c = 0"
  "be32 (in_file (signed_file h0 h1)) 0x100000110 = 0x20"
  "be32 (in_file (signed_file h0 h1)) 0x100000114 = 0x1000"
  "be32 (in_file (signed_file h0 h1)) 0x100000118 = 0x80"
  "be32 (in_file (signed_file h0 h1)) 0x100000120 = 0xfade0c02"
  "be32 (in_file (signed_file h0 h1)) 0x100000124 = 88"
  "bytes_at (in_file (signed_file h0 h1)) 0x100000145 = h0"
  "be32 (in_file (signed_file h0 h1)) 0x100000180 = 0xfade0c02"
  "be32 (in_file (signed_file h0 h1)) 0x100000184 = 96"
  "bytes_at (in_file (signed_file h0 h1)) 0x1000001a5 = h1"
  by (simp_all add: signed_file_def byte_defs read_defs)

lemma far_fields:
  "be32 (in_file far_file) 0x100000108 = 2"
  "be32 (in_file far_file) 0x10000010c = 0"
  "be32 (in_file far_file) 0x100000110 = 0x20"
  "be32 (in_file far_file) 0x100000114 = 2"
  "be32 (in_file far_file) 0x100000118 = 0x201"
  by (simp_all add: far_file_def signed_file_def byte_defs read_defs)

lemma badcd_fields:
  "be32 (in_file badcd_file) 0x100000108 = 2"
  "be32 (in_file badcd_file) 0x10000010c = 0"
  "be32 (in_file badcd_file) 0x100000110 = 0x20"
  "be32 (in_file badcd_file) 0x100000114 = 0x1000"
  "be32 (in_file badcd_file) 0x100000118 = 0x80"
  "be32 (in_file badcd_file) 0x100000120 = 0xfade0c02"
  "be32 (in_file badcd_file) 0x100000124 = 88"
  "be32 (in_file badcd_file) 0x100000180 = 0"
  by (simp_all add: badcd_file_def signed_file_def byte_defs read_defs)

lemma short_fields:
  "be32 (in_file short_file) 0x100000120 = 0xfade0c02"
  "be32 (in_file short_file) 0x100000124 = 1"
  by (simp_all add: short_file_def signed_file_def byte_defs read_defs)


lemma tail_fields:
  "peek32 (in_file tail_file) 0x100000000 = 0xfeedfacf"
  "peek32 (in_file tail_file) 0x100000014 = 0xfe0"
  "peek32 (in_file tail_file) 0x100000020 = 0x19"
  "peek32 (in_file tail_file) 0x100000024 = 0xfd8"
  "peek32 (in_file tail_file) 0x100000ff8 = 0x1d"
  "peek32 (in_file tail_file) 0x100000ffc = 8"
  by (simp_all add: tail_file_def byte_defs read_defs)

text \<open>Where a read of these files is inside the buffer.\<close>

lemma in_file_bounds:
  "in_image (in_file m) p n \<longleftrightarrow> 0x100000000 \<le> unat p \<and> unat p + n \<le> 0x100001000"
  by (auto simp: in_image_def in_file_def)

section \<open>Reads inside the buffer\<close>

lemma in_image_sub:
  assumes "in_image I p n" and "unat d + m \<le> n" and "0 < m"
  shows "in_image I (p + d) m"
proof -
  from assms have "unat p + unat d < 2 ^ LENGTH(64)"
    by (simp add: in_image_def)
  then have "unat (p + d) = unat p + unat d"
    by (simp only: unat_add_lem)
  with assms show ?thesis
    by (simp add: in_image_def)
qed

lemma in_image_shrink: "in_image I p n \<Longrightarrow> m \<le> n \<Longrightarrow> in_image I p m"
  by (simp add: in_image_def)

lemma load32_in: "in_image I p 4 \<Longrightarrow> load32 I p = Inr (peek32 I p)"
  by (simp add: load32_def)

lemma load8_in: "in_image I p 1 \<Longrightarrow> load8 I p = Inr (bytes_at I p)"
  by (simp add: load8_def)

lemma unat_ucast32: "unat (ucast (x :: u32) :: u64) = unat x"
proof -
  have "unat x < 2 ^ 32"
    using unsigned_less [of x, where ?'a = nat] by simp
  also have "(2 :: nat) ^ 32 < 2 ^ 64"
    by simp
  finally show ?thesis
    by (simp add: unsigned_ucast_eq take_bit_nat_eq_self)
qed

lemma unat_u32_bound: "unat (x :: u32) < 2 ^ 32"
  using unsigned_less [of x, where ?'a = nat] by simp

lemma ucast32_64_le: "(ucast (x :: u32) :: u64) \<le> ucast (y :: u32) \<longleftrightarrow> x \<le> y"
  by (simp add: word_le_nat_alt unat_ucast32)

lemma ucast32_64_eq0: "(ucast (x :: u32) :: u64) = 0 \<longleftrightarrow> x = 0"
proof
  assume "(ucast x :: u64) = 0"
  then have "unat (ucast x :: u64) = 0"
    by simp
  then have "unat x = 0"
    by (simp only: unat_ucast32)
  then show "x = 0"
    by (simp add: unat_eq_0)
next
  assume "x = 0"
  then show "(ucast x :: u64) = 0"
    by simp
qed

lemma cd_fields_loaded:
  assumes "in_image I cd (unat asz)" and "sizeof_CS_CodeDirectory \<le> asz"
  shows "load32 I cd = Inr (peek32 I cd)"
    and "load32 I (cd + off_length) = Inr (peek32 I (cd + off_length))"
    and "load8 I (cd + off_hashType) = Inr (cd_hashType I cd)"
proof -
  from assms(2) have n: "88 \<le> unat asz"
    by (simp add: sizeof_CS_CodeDirectory_def word_le_nat_alt)
  from assms(1) n have "in_image I cd 4"
    by (simp add: in_image_def)
  then show "load32 I cd = Inr (peek32 I cd)"
    by (rule load32_in)
  from n have "in_image I (cd + off_length) 4"
    by (intro in_image_sub [OF assms(1)]) (simp_all add: off_length_def)
  then show "load32 I (cd + off_length) = Inr (peek32 I (cd + off_length))"
    by (rule load32_in)
  from n have "in_image I (cd + off_hashType) 1"
    by (intro in_image_sub [OF assms(1)]) (simp_all add: off_hashType_def)
  then show "load8 I (cd + off_hashType) = Inr (cd_hashType I cd)"
    unfolding cd_hashType_def by (rule load8_in)
qed

lemma validate_in_image:
  assumes "in_image I cd (unat sz)"
  shows "cs_codedirectory_validate I cd sz =
     Inr (if sizeof_CS_CodeDirectory \<le> sz \<and> cd_magic I cd = CSMAGIC_CODEDIRECTORY \<and>
             cd_length I cd \<noteq> 0 \<and> ucast (cd_length I cd) \<le> sz
          then ucast (cd_length I cd) else 0)"
proof (cases "sz < sizeof_CS_CodeDirectory")
  case True
  then show ?thesis
    by (simp add: cs_codedirectory_validate_def not_le [symmetric])
next
  case False
  then have "sizeof_CS_CodeDirectory \<le> sz"
    by simp
  from cd_fields_loaded(1,2) [OF assms this] this show ?thesis
    by (auto simp: cs_codedirectory_validate_def cd_magic_def cd_length_def be32_def Let_def
        ucast32_64_eq0 not_less)
qed

lemma validate_accepts:
  assumes "cs_codedirectory_validate I cd sz = Inr len" and "len \<noteq> 0"
  shows "sizeof_CS_CodeDirectory \<le> sz \<and> 0 < len \<and> len \<le> sz \<and>
         len = ucast (cd_length I cd) \<and> cd_magic I cd = CSMAGIC_CODEDIRECTORY"
proof -
  from assms have sz: "\<not> sz < sizeof_CS_CodeDirectory"
    by (auto simp: cs_codedirectory_validate_def)
  with assms obtain m where m: "load32 I cd = Inr m"
    by (cases "load32 I cd") (auto simp: cs_codedirectory_validate_def)
  with assms sz have magic: "ntohl m = CSMAGIC_CODEDIRECTORY"
    by (auto simp: cs_codedirectory_validate_def Let_def split: if_splits)
  with assms sz m obtain l where l: "load32 I (cd + off_length) = Inr l"
    by (cases "load32 I (cd + off_length)") (auto simp: cs_codedirectory_validate_def)
  with assms sz m magic have len: "\<not> ucast (ntohl l) > sz" "len = ucast (ntohl l)"
    by (auto simp: cs_codedirectory_validate_def Let_def split: if_splits)
  from m l have "m = peek32 I cd" "l = peek32 I (cd + off_length)"
    by (auto simp: load32_def split: if_splits)
  with sz magic len assms(2) show ?thesis
    by (simp add: cd_magic_def cd_length_def be32_def word_neq_0_conv not_less)
qed

section \<open>The rank and the index loop\<close>

lemma rank_scan_0:
  "rank_scan ht 0 =
     (if ucast ht = CS_HASHTYPE_SHA1 then 1
      else if ucast ht = CS_HASHTYPE_SHA256_TRUNCATED then 2
      else if ucast ht = CS_HASHTYPE_SHA256 then 3
      else if ucast ht = CS_HASHTYPE_SHA384 then 4
      else 0)"
proof -
  have 4: "rank_scan ht 4 = 0"
    by (subst rank_scan.simps) (simp add: ranked_hash_types_def)
  have 3: "rank_scan ht 3 = (if ucast ht = CS_HASHTYPE_SHA384 then 4 else 0)"
    by (subst rank_scan.simps) (auto simp: ranked_hash_types_def 4)
  have 2: "rank_scan ht 2 = (if ucast ht = CS_HASHTYPE_SHA256 then 3 else rank_scan ht 3)"
    by (subst rank_scan.simps) (auto simp: ranked_hash_types_def)
  have 1: "rank_scan ht 1 = (if ucast ht = CS_HASHTYPE_SHA256_TRUNCATED then 2 else rank_scan ht 2)"
    by (subst rank_scan.simps) (auto simp: ranked_hash_types_def numeral_2_eq_2)
  have 0: "rank_scan ht 0 = (if ucast ht = CS_HASHTYPE_SHA1 then 1 else rank_scan ht 1)"
    by (subst rank_scan.simps) (auto simp: ranked_hash_types_def)
  show ?thesis
    unfolding 0 1 2 3 by simp
qed

lemma index_entry_loaded:
  assumes img: "in_image I sb (unat (sz :: u64))"
    and idx: "unat sizeof_CS_SuperBlob + unat sizeof_CS_BlobIndex * unat count \<le> unat sz"
    and i: "i < count"
  shows "load32 I (index_entry sb i) = Inr (peek32 I (index_entry sb i))"
    and "load32 I (index_entry sb i + off_offset) = Inr (peek32 I (index_entry sb i + off_offset))"
proof -
  from i have lt: "unat i < unat count"
    by (simp add: word_less_nat_alt)
  have "unat sz < 2 ^ LENGTH(64)"
    by (rule unsigned_less)
  then have szb: "unat sz < 2 ^ 64"
    by simp
  from idx lt have bound: "12 + 8 * unat i + 8 \<le> unat sz"
    by (simp add: sizeof_CS_SuperBlob_def sizeof_CS_BlobIndex_def)
  with szb have "unat (8 :: u64) * unat i < 2 ^ LENGTH(64)"
    by simp
  then have "unat (8 * i) = unat (8 :: u64) * unat i"
    by (rule unat_mult_lem [THEN iffD1])
  then have m: "unat (8 * i) = 8 * unat i"
    by simp
  from bound szb m have "unat (12 :: u64) + unat (8 * i) < 2 ^ LENGTH(64)"
    by simp
  then have "unat (12 + 8 * i) = unat (12 :: u64) + unat (8 * i)"
    by (rule unat_add_lem [THEN iffD1])
  with m have d: "unat (12 + 8 * i) = 12 + 8 * unat i"
    by simp
  from bound szb d have "unat (12 + 8 * i) + unat (4 :: u64) < 2 ^ LENGTH(64)"
    by simp
  then have "unat (12 + 8 * i + 4) = unat (12 + 8 * i) + unat (4 :: u64)"
    by (rule unat_add_lem [THEN iffD1])
  with d have d4: "unat (12 + 8 * i + 4) = 12 + 8 * unat i + 4"
    by simp
  have e: "index_entry sb i = sb + (12 + 8 * i)"
    by (simp add: index_entry_def sizeof_CS_SuperBlob_def sizeof_CS_BlobIndex_def add.assoc)
  have e4: "index_entry sb i + off_offset = sb + (12 + 8 * i + 4)"
    by (simp add: e off_offset_def add.assoc)
  from bound d have "in_image I (sb + (12 + 8 * i)) 4"
    by (intro in_image_sub [OF img]) simp_all
  then show "load32 I (index_entry sb i) = Inr (peek32 I (index_entry sb i))"
    unfolding e by (rule load32_in)
  from bound d4 have "in_image I (sb + (12 + 8 * i + 4)) 4"
    by (intro in_image_sub [OF img]) simp_all
  then show "load32 I (index_entry sb i + off_offset) = Inr (peek32 I (index_entry sb i + off_offset))"
    unfolding e4 by (rule load32_in)
qed

lemma entry_cd_in_image:
  assumes img: "in_image I sb (unat sz)"
    and off: "(ucast (off :: u32) :: u64) \<le> sz"
    and room: "sizeof_CS_CodeDirectory \<le> sz - ucast off"
  shows "in_image I (sb + ucast off) (unat (sz - ucast off))"
proof -
  from off have u: "unat (sz - ucast off) = unat sz - unat (ucast off :: u64)"
    by (simp add: unat_sub)
  from off have le: "unat (ucast off :: u64) \<le> unat sz"
    by (simp add: word_le_nat_alt)
  from room have "0 < unat (sz - ucast off)"
    by (simp add: sizeof_CS_CodeDirectory_def word_le_nat_alt)
  with u le show ?thesis
    by (intro in_image_sub [OF img]) simp_all
qed

lemma scan_done: "\<not> i < count \<Longrightarrow> cs_superblob_scan I sb sz count i b = Inr (Some b)"
  by (subst cs_superblob_scan.simps) simp

lemma scan_step:
  assumes img: "in_image I sb (unat sz)"
    and idx: "unat sizeof_CS_SuperBlob + unat sizeof_CS_BlobIndex * unat count \<le> unat sz"
    and i: "i < count"
  shows "cs_superblob_scan I sb sz count i b =
     (if ucast (entry_offset I sb i) > sz then Inr None
      else if qualifying I sb i then
        (case cs_codedirectory_validate I (entry_cd I sb i) (sz - ucast (entry_offset I sb i)) of
           Inl e \<Rightarrow> Inl e
         | Inr cd_size \<Rightarrow>
             if cd_size = 0 then Inr None
             else (case cs_codedirectory_rank I (entry_cd I sb i) of
                     Inl e \<Rightarrow> Inl e
                   | Inr cd_rank \<Rightarrow>
                       cs_superblob_scan I sb sz count (i + 1)
                         (if cd_rank > best_cd_rank b
                          then \<lparr>best_cd = entry_cd I sb i, best_cd_rank = cd_rank,
                                 best_cd_size = cd_size\<rparr>
                          else b)))
      else cs_superblob_scan I sb sz count (i + 1) b)"
  by (subst cs_superblob_scan.simps)
    (simp only: i if_True Let_def index_entry_loaded [OF img idx i] sum.case entry_offset_def
      entry_type_def qualifying_def entry_cd_def be32_def)

lemma entry_validate_total:
  assumes img: "in_image I sb (unat sz)"
    and off: "ucast (entry_offset I sb i) \<le> sz"
  shows "\<exists>v. cs_codedirectory_validate I (entry_cd I sb i) (sz - ucast (entry_offset I sb i)) = Inr v"
proof (cases "sz - ucast (entry_offset I sb i) < sizeof_CS_CodeDirectory")
  case True
  then show ?thesis
    by (simp add: cs_codedirectory_validate_def)
next
  case False
  then have "sizeof_CS_CodeDirectory \<le> sz - ucast (entry_offset I sb i)"
    by simp
  from entry_cd_in_image [OF img off this] show ?thesis
    unfolding entry_cd_def by (simp add: validate_in_image)
qed

lemma scan_step_far:
  assumes "in_image I sb (unat sz)"
    and "unat sizeof_CS_SuperBlob + unat sizeof_CS_BlobIndex * unat count \<le> unat sz"
    and "i < count"
    and "sz < ucast (entry_offset I sb i)"
  shows "cs_superblob_scan I sb sz count i b = Inr None"
  using assms(4) by (simp add: scan_step [OF assms(1-3)])

lemma scan_step_skip:
  assumes "in_image I sb (unat sz)"
    and "unat sizeof_CS_SuperBlob + unat sizeof_CS_BlobIndex * unat count \<le> unat sz"
    and "i < count"
    and "ucast (entry_offset I sb i) \<le> sz"
    and "\<not> qualifying I sb i"
  shows "cs_superblob_scan I sb sz count i b = cs_superblob_scan I sb sz count (i + 1) b"
  using assms(4,5) by (simp add: scan_step [OF assms(1-3)] not_less [symmetric])

lemma scan_step_invalid:
  assumes "in_image I sb (unat sz)"
    and "unat sizeof_CS_SuperBlob + unat sizeof_CS_BlobIndex * unat count \<le> unat sz"
    and "i < count"
    and "ucast (entry_offset I sb i) \<le> sz"
    and "qualifying I sb i"
    and "\<not> valid_entry I sb sz i"
  shows "cs_superblob_scan I sb sz count i b = Inr None"
proof -
  from entry_validate_total [OF assms(1,4)] obtain v
    where v: "cs_codedirectory_validate I (entry_cd I sb i) (sz - ucast (entry_offset I sb i)) = Inr v"
    by blast
  with assms(6) have "v = 0"
    by (simp add: valid_entry_def)
  with v assms(4,5) show ?thesis
    by (simp add: scan_step [OF assms(1-3)] not_less [symmetric])
qed

lemma scan_step_valid:
  assumes "in_image I sb (unat sz)"
    and "unat sizeof_CS_SuperBlob + unat sizeof_CS_BlobIndex * unat count \<le> unat sz"
    and "i < count"
    and "ucast (entry_offset I sb i) \<le> sz"
    and "qualifying I sb i"
    and "valid_entry I sb sz i"
  shows "cs_superblob_scan I sb sz count i b =
     cs_superblob_scan I sb sz count (i + 1)
       (if entry_rank I sb i > best_cd_rank b then candidate I sb i else b)"
proof -
  from assms(6) obtain v
    where v: "cs_codedirectory_validate I (entry_cd I sb i) (sz - ucast (entry_offset I sb i)) = Inr v"
      and nz: "v \<noteq> 0"
    by (auto simp: valid_entry_def split: sum.splits)
  from validate_accepts [OF v nz]
  have room: "sizeof_CS_CodeDirectory \<le> sz - ucast (entry_offset I sb i)"
    and len: "v = ucast (cd_length I (entry_cd I sb i))"
    by simp_all
  from entry_cd_in_image [OF assms(1,4) room]
  have "in_image I (entry_cd I sb i) (unat (sz - ucast (entry_offset I sb i)))"
    by (simp add: entry_cd_def)
  from cd_fields_loaded(3) [OF this room]
  have rank: "cs_codedirectory_rank I (entry_cd I sb i) = Inr (entry_rank I sb i)"
    by (simp add: cs_codedirectory_rank_def entry_rank_def)
  from v nz rank len assms(4,5) show ?thesis
    by (simp add: scan_step [OF assms(1-3)] not_less [symmetric] candidate_def)
qed

lemma word_range_split: "i < (count :: u64) \<Longrightarrow> (i \<le> j) = (j = i \<or> i + 1 \<le> j)"
  by unat_arith

lemma word_succ_measure: "i < (count :: u64) \<Longrightarrow> unat count - unat (i + 1) < unat count - unat i"
  by unat_arith

lemma word_succ_not_le: "i < (count :: u64) \<Longrightarrow> i + 1 \<le> j \<Longrightarrow> j \<noteq> i"
  by unat_arith

lemma word_succ_less: "i < (count :: u64) \<Longrightarrow> i + 1 \<le> k \<Longrightarrow> i < k"
  by unat_arith

lemma word_lt_succ: "i < (count :: u64) \<Longrightarrow> (k < i + 1) = (k \<le> i)"
  by unat_arith

lemma scan_selects:
  assumes img: "in_image I sb (unat sz)"
    and idx: "unat sizeof_CS_SuperBlob + unat sizeof_CS_BlobIndex * unat count \<le> unat sz"
    and ok: "\<forall>j. i \<le> j \<and> j < count \<longrightarrow>
       ucast (entry_offset I sb j) \<le> sz \<and> (qualifying I sb j \<longrightarrow> valid_entry I sb sz j)"
  shows "\<exists>b'. cs_superblob_scan I sb sz count i b = Inr (Some b') \<and>
     ((b' = b \<and>
       (\<forall>j. i \<le> j \<and> j < count \<and> qualifying I sb j \<longrightarrow> entry_rank I sb j \<le> best_cd_rank b)) \<or>
      (\<exists>j. i \<le> j \<and> j < count \<and> qualifying I sb j \<and> b' = candidate I sb j \<and>
           best_cd_rank b < entry_rank I sb j \<and>
           (\<forall>k. i \<le> k \<and> k < count \<and> qualifying I sb k \<longrightarrow>
                entry_rank I sb k \<le> entry_rank I sb j) \<and>
           (\<forall>k. i \<le> k \<and> k < j \<and> qualifying I sb k \<longrightarrow>
                entry_rank I sb k < entry_rank I sb j)))"
  using ok
proof (induction "unat count - unat i" arbitrary: i b rule: less_induct)
  case less
  define Q where "Q = qualifying I sb"
  define R where "R = entry_rank I sb"
  define C where "C = candidate I sb"
  have rankC: "\<And>j. best_cd_rank (C j) = R j"
    by (simp add: C_def R_def candidate_def)
  show ?case
  proof (cases "i < count")
    case False
    then have "cs_superblob_scan I sb sz count i b = Inr (Some b)"
      by (rule scan_done)
    moreover from False have "\<And>j. \<not> (i \<le> j \<and> j < count)"
      by auto
    ultimately show ?thesis
      by blast
  next
    case True
    note split = word_range_split [OF True]
    from less.prems True have off: "ucast (entry_offset I sb i) \<le> sz"
      and val: "qualifying I sb i \<longrightarrow> valid_entry I sb sz i"
      by auto
    have ok': "\<forall>j. i + 1 \<le> j \<and> j < count \<longrightarrow>
       ucast (entry_offset I sb j) \<le> sz \<and> (qualifying I sb j \<longrightarrow> valid_entry I sb sz j)"
      using less.prems by (simp add: split)
    note IH = less.hyps [OF word_succ_measure [OF True] ok', folded Q_def R_def C_def]
    show ?thesis
    proof (cases "qualifying I sb i")
      case False
      then have nQ: "\<not> Q i"
        by (simp add: Q_def)
      have step: "cs_superblob_scan I sb sz count i b = cs_superblob_scan I sb sz count (i + 1) b"
        by (rule scan_step_skip [OF img idx True off False])
      from IH [of b] obtain b' where
        r: "cs_superblob_scan I sb sz count (i + 1) b = Inr (Some b')" and
        d: "(b' = b \<and> (\<forall>j. i + 1 \<le> j \<and> j < count \<and> Q j \<longrightarrow> R j \<le> best_cd_rank b)) \<or>
            (\<exists>j. i + 1 \<le> j \<and> j < count \<and> Q j \<and> b' = C j \<and> best_cd_rank b < R j \<and>
               (\<forall>k. i + 1 \<le> k \<and> k < count \<and> Q k \<longrightarrow> R k \<le> R j) \<and>
               (\<forall>k. i + 1 \<le> k \<and> k < j \<and> Q k \<longrightarrow> R k < R j))"
        by blast
      from d nQ have
        "(b' = b \<and> (\<forall>j. i \<le> j \<and> j < count \<and> Q j \<longrightarrow> R j \<le> best_cd_rank b)) \<or>
         (\<exists>j. i \<le> j \<and> j < count \<and> Q j \<and> b' = C j \<and> best_cd_rank b < R j \<and>
               (\<forall>k. i \<le> k \<and> k < count \<and> Q k \<longrightarrow> R k \<le> R j) \<and>
               (\<forall>k. i \<le> k \<and> k < j \<and> Q k \<longrightarrow> R k < R j))"
        unfolding split [of] by blast
      with r step show ?thesis
        by (simp add: Q_def R_def C_def)
    next
      case True
      then have Qi: "Q i"
        by (simp add: Q_def)
      from True val have "valid_entry I sb sz i"
        by simp
      from scan_step_valid [OF img idx \<open>i < count\<close> off True this]
      have step: "cs_superblob_scan I sb sz count i b =
          cs_superblob_scan I sb sz count (i + 1) (if R i > best_cd_rank b then C i else b)"
        by (simp add: R_def C_def)
      show ?thesis
      proof (cases "R i > best_cd_rank b")
        case True
        from IH [of "C i"] obtain b' where
          r: "cs_superblob_scan I sb sz count (i + 1) (C i) = Inr (Some b')" and
          d: "(b' = C i \<and> (\<forall>j. i + 1 \<le> j \<and> j < count \<and> Q j \<longrightarrow> R j \<le> R i)) \<or>
              (\<exists>j. i + 1 \<le> j \<and> j < count \<and> Q j \<and> b' = C j \<and> R i < R j \<and>
                 (\<forall>k. i + 1 \<le> k \<and> k < count \<and> Q k \<longrightarrow> R k \<le> R j) \<and>
                 (\<forall>k. i + 1 \<le> k \<and> k < j \<and> Q k \<longrightarrow> R k < R j))"
          unfolding rankC by blast
        from d have
          "\<exists>j. i \<le> j \<and> j < count \<and> Q j \<and> b' = C j \<and> best_cd_rank b < R j \<and>
                 (\<forall>k. i \<le> k \<and> k < count \<and> Q k \<longrightarrow> R k \<le> R j) \<and>
                 (\<forall>k. i \<le> k \<and> k < j \<and> Q k \<longrightarrow> R k < R j)"
        proof
          assume a: "b' = C i \<and> (\<forall>j. i + 1 \<le> j \<and> j < count \<and> Q j \<longrightarrow> R j \<le> R i)"
          have "i \<le> i \<and> i < count \<and> Q i \<and> b' = C i \<and> best_cd_rank b < R i \<and>
                 (\<forall>k. i \<le> k \<and> k < count \<and> Q k \<longrightarrow> R k \<le> R i) \<and>
                 (\<forall>k. i \<le> k \<and> k < i \<and> Q k \<longrightarrow> R k < R i)"
            using a True Qi \<open>i < count\<close> unfolding split [of]
            by (auto dest: word_succ_less [OF \<open>i < count\<close>])
          then show ?thesis
            by blast
        next
          assume "\<exists>j. i + 1 \<le> j \<and> j < count \<and> Q j \<and> b' = C j \<and> R i < R j \<and>
                 (\<forall>k. i + 1 \<le> k \<and> k < count \<and> Q k \<longrightarrow> R k \<le> R j) \<and>
                 (\<forall>k. i + 1 \<le> k \<and> k < j \<and> Q k \<longrightarrow> R k < R j)"
          then obtain j where j: "i + 1 \<le> j" "j < count" "Q j" "b' = C j" "R i < R j"
            "\<forall>k. i + 1 \<le> k \<and> k < count \<and> Q k \<longrightarrow> R k \<le> R j"
            "\<forall>k. i + 1 \<le> k \<and> k < j \<and> Q k \<longrightarrow> R k < R j"
            by blast
          have "i \<le> j \<and> j < count \<and> Q j \<and> b' = C j \<and> best_cd_rank b < R j \<and>
                 (\<forall>k. i \<le> k \<and> k < count \<and> Q k \<longrightarrow> R k \<le> R j) \<and>
                 (\<forall>k. i \<le> k \<and> k < j \<and> Q k \<longrightarrow> R k < R j)"
            using j True unfolding split [of]
            by (auto dest: word_succ_less [OF \<open>i < count\<close>])
          then show ?thesis
            by blast
        qed
        with r step True show ?thesis
          by (simp add: Q_def R_def C_def)
      next
        case False
        then have le: "R i \<le> best_cd_rank b"
          by simp
        from IH [of b] obtain b' where
          r: "cs_superblob_scan I sb sz count (i + 1) b = Inr (Some b')" and
          d: "(b' = b \<and> (\<forall>j. i + 1 \<le> j \<and> j < count \<and> Q j \<longrightarrow> R j \<le> best_cd_rank b)) \<or>
              (\<exists>j. i + 1 \<le> j \<and> j < count \<and> Q j \<and> b' = C j \<and> best_cd_rank b < R j \<and>
                 (\<forall>k. i + 1 \<le> k \<and> k < count \<and> Q k \<longrightarrow> R k \<le> R j) \<and>
                 (\<forall>k. i + 1 \<le> k \<and> k < j \<and> Q k \<longrightarrow> R k < R j))"
          by blast
        from d have
          "(b' = b \<and> (\<forall>j. i \<le> j \<and> j < count \<and> Q j \<longrightarrow> R j \<le> best_cd_rank b)) \<or>
           (\<exists>j. i \<le> j \<and> j < count \<and> Q j \<and> b' = C j \<and> best_cd_rank b < R j \<and>
                 (\<forall>k. i \<le> k \<and> k < count \<and> Q k \<longrightarrow> R k \<le> R j) \<and>
                 (\<forall>k. i \<le> k \<and> k < j \<and> Q k \<longrightarrow> R k < R j))"
        proof
          assume "b' = b \<and> (\<forall>j. i + 1 \<le> j \<and> j < count \<and> Q j \<longrightarrow> R j \<le> best_cd_rank b)"
          with le have "b' = b \<and> (\<forall>j. i \<le> j \<and> j < count \<and> Q j \<longrightarrow> R j \<le> best_cd_rank b)"
            unfolding split [of] by (auto dest: word_succ_less [OF \<open>i < count\<close>])
          then show ?thesis
            by blast
        next
          assume "\<exists>j. i + 1 \<le> j \<and> j < count \<and> Q j \<and> b' = C j \<and> best_cd_rank b < R j \<and>
                 (\<forall>k. i + 1 \<le> k \<and> k < count \<and> Q k \<longrightarrow> R k \<le> R j) \<and>
                 (\<forall>k. i + 1 \<le> k \<and> k < j \<and> Q k \<longrightarrow> R k < R j)"
          then obtain j where j: "i + 1 \<le> j" "j < count" "Q j" "b' = C j" "best_cd_rank b < R j"
            "\<forall>k. i + 1 \<le> k \<and> k < count \<and> Q k \<longrightarrow> R k \<le> R j"
            "\<forall>k. i + 1 \<le> k \<and> k < j \<and> Q k \<longrightarrow> R k < R j"
            by blast
          have "i \<le> j \<and> j < count \<and> Q j \<and> b' = C j \<and> best_cd_rank b < R j \<and>
                 (\<forall>k. i \<le> k \<and> k < count \<and> Q k \<longrightarrow> R k \<le> R j) \<and>
                 (\<forall>k. i \<le> k \<and> k < j \<and> Q k \<longrightarrow> R k < R j)"
            using j le unfolding split [of]
            by (auto dest: word_succ_less [OF \<open>i < count\<close>])
          then show ?thesis
            by blast
        qed
        with r step False show ?thesis
          by (simp add: Q_def R_def C_def)
      qed
    qed
  qed
qed

section \<open>Hashing the selected code directory\<close>

lemma ucast_down_up32: "(ucast (ucast (x :: u32) :: u64) :: u32) = x"
  by (simp add: ucast_up_ucast_id is_up)

lemma cdhash_of_accepted:
  assumes img: "in_image I cd (unat asz)"
    and v: "cs_codedirectory_validate I cd asz = Inr v" and nz: "v \<noteq> 0"
  shows "cs_codedirectory_cdhash I D cd s = Inr (cd_digest I D cd)"
proof -
  from validate_accepts [OF v nz]
  have room: "sizeof_CS_CodeDirectory \<le> asz" and len: "v = ucast (cd_length I cd)" and le: "v \<le> asz"
    by blast+
  from len le have "unat (cd_length I cd) \<le> unat asz"
    by (simp add: word_le_nat_alt unat_ucast32)
  with img have "in_image I cd (unat (cd_length I cd))"
    by (rule in_image_shrink)
  then have bytes: "load_bytes I cd (unat (cd_length I cd)) = Inr (cd_bytes I cd)"
    by (simp add: load_bytes_def cd_bytes_def)
  from cd_fields_loaded(2,3) [OF img room] bytes show ?thesis
    by (simp add: cs_codedirectory_cdhash_def cdhash_sha1_def cdhash_sha256_def cd_digest_def
        Let_def ucast_down_up32 cd_length_def be32_def)
qed

lemma entry_cd_not_null:
  assumes nn: "sb \<noteq> NULL" and img: "in_image I sb (unat sz)"
    and off: "(ucast (off :: u32) :: u64) \<le> sz"
    and room: "sizeof_CS_CodeDirectory \<le> sz - ucast off"
  shows "sb + ucast off \<noteq> NULL"
proof -
  from off have u: "unat (sz - ucast off) = unat sz - unat (ucast off :: u64)"
    by (simp add: unat_sub)
  from off have le: "unat (ucast off :: u64) \<le> unat sz"
    by (simp add: word_le_nat_alt)
  from room have "0 < unat (sz - ucast off)"
    by (simp add: sizeof_CS_CodeDirectory_def word_le_nat_alt)
  with u le img have "unat sb + unat (ucast off :: u64) < 2 ^ LENGTH(64)"
    by (simp add: in_image_def)
  then have "unat (sb + ucast off) = unat sb + unat (ucast off :: u64)"
    by (rule unat_add_lem [THEN iffD1])
  moreover from nn have "0 < unat sb"
    by (simp add: NULL_def unat_gt_0)
  ultimately have "0 < unat (sb + ucast off)"
    by simp
  then show ?thesis
    by (simp add: NULL_def unat_gt_0)
qed

lemma superblob_count_loaded:
  assumes "superblob_in_image I sb sz"
  shows "load32 I (sb + off_count) = Inr (peek32 I (sb + off_count))"
proof -
  from assms have img: "in_image I sb (unat sz)" and "12 \<le> unat sz"
    by (simp_all add: superblob_in_image_def sizeof_CS_SuperBlob_def)
  then have "in_image I (sb + off_count) 4"
    by (intro in_image_sub [OF img]) (simp_all add: off_count_def)
  then show ?thesis
    by (rule load32_in)
qed

lemma cs_superblob_cdhash_scan:
  assumes "superblob_in_image I sb sz"
  shows "cs_superblob_cdhash I D sb sz =
     (case cs_superblob_scan I sb sz (ucast (sb_count I sb)) 0 no_best of
        Inl e \<Rightarrow> Inl e
      | Inr None \<Rightarrow> Inr failed
      | Inr (Some b) \<Rightarrow>
          if best_cd b = NULL then Inr failed
          else cs_codedirectory_cdhash I D (best_cd b) (best_cd_size b))"
  by (simp add: cs_superblob_cdhash_def superblob_count_loaded [OF assms] Let_def sb_count_def
      be32_def)

lemma superblob_index_bound:
  assumes "superblob_in_image I sb sz"
  shows "unat sizeof_CS_SuperBlob + unat sizeof_CS_BlobIndex * unat (ucast (sb_count I sb) :: u64)
           \<le> unat sz"
  using assms by (simp add: superblob_in_image_def unat_ucast32)

text \<open>What the loop has selected hashes as \<open>cd_digest\<close> says, when it is a valid entry.\<close>

lemma candidate_cdhash:
  assumes sb: "superblob_in_image I sb sz"
    and off: "ucast (entry_offset I sb j) \<le> sz"
    and val: "valid_entry I sb sz j"
  shows "best_cd (candidate I sb j) \<noteq> NULL"
    and "cs_codedirectory_cdhash I D (best_cd (candidate I sb j)) (best_cd_size (candidate I sb j)) =
           Inr (cd_digest I D (entry_cd I sb j))"
proof -
  from sb have nn: "sb \<noteq> NULL" and img: "in_image I sb (unat sz)"
    by (simp_all add: superblob_in_image_def)
  from val obtain v
    where v: "cs_codedirectory_validate I (entry_cd I sb j) (sz - ucast (entry_offset I sb j)) = Inr v"
      and nz: "v \<noteq> 0"
    by (auto simp: valid_entry_def split: sum.splits)
  from validate_accepts [OF v nz]
  have room: "sizeof_CS_CodeDirectory \<le> sz - ucast (entry_offset I sb j)"
    by simp
  from entry_cd_not_null [OF nn img off room]
  show "best_cd (candidate I sb j) \<noteq> NULL"
    by (simp add: candidate_def entry_cd_def)
  from entry_cd_in_image [OF img off room]
  have "in_image I (entry_cd I sb j) (unat (sz - ucast (entry_offset I sb j)))"
    by (simp add: entry_cd_def)
  from cdhash_of_accepted [OF this v nz]
  show "cs_codedirectory_cdhash I D (best_cd (candidate I sb j)) (best_cd_size (candidate I sb j)) =
           Inr (cd_digest I D (entry_cd I sb j))"
    by (simp add: candidate_def)
qed

section \<open>What the index loop returns\<close>

lemma scan_fails:
  assumes img: "in_image I sb (unat sz)"
    and idx: "unat sizeof_CS_SuperBlob + unat sizeof_CS_BlobIndex * unat count \<le> unat sz"
    and j: "i \<le> j" "j < count"
    and bad: "sz < ucast (entry_offset I sb j) \<or> (qualifying I sb j \<and> \<not> valid_entry I sb sz j)"
  shows "cs_superblob_scan I sb sz count i b = Inr None"
  using j
proof (induction "unat count - unat i" arbitrary: i b rule: less_induct)
  case less
  from less.prems have i: "i < count"
    by simp
  note IH = less.hyps [OF word_succ_measure [OF i] _ less.prems(2)]
  show ?case
  proof (cases "sz < ucast (entry_offset I sb i)")
    case True
    then show ?thesis
      by (rule scan_step_far [OF img idx i])
  next
    case False
    then have off: "ucast (entry_offset I sb i) \<le> sz"
      by simp
    show ?thesis
    proof (cases "qualifying I sb i")
      case q: True
      show ?thesis
      proof (cases "valid_entry I sb sz i")
        case True
        from bad off q True have "j \<noteq> i"
          by auto
        with less.prems(1) have "i + 1 \<le> j"
          by (simp add: word_range_split [OF i])
        then show ?thesis
          by (simp add: scan_step_valid [OF img idx i off q True] IH)
      next
        case False
        then show ?thesis
          by (rule scan_step_invalid [OF img idx i off q])
      qed
    next
      case False
      from bad off False have "j \<noteq> i"
        by auto
      with less.prems(1) have "i + 1 \<le> j"
        by (simp add: word_range_split [OF i])
      then show ?thesis
        by (simp add: scan_step_skip [OF img idx i off False] IH)
    qed
  qed
qed

lemma scan_total:
  assumes img: "in_image I sb (unat sz)"
    and idx: "unat sizeof_CS_SuperBlob + unat sizeof_CS_BlobIndex * unat count \<le> unat sz"
  shows "cs_superblob_scan I sb sz count i b = Inr None \<or>
         cs_superblob_scan I sb sz count i b = Inr (Some b) \<or>
         (\<exists>j. i \<le> j \<and> j < count \<and> qualifying I sb j \<and> valid_entry I sb sz j \<and>
              ucast (entry_offset I sb j) \<le> sz \<and>
              cs_superblob_scan I sb sz count i b = Inr (Some (candidate I sb j)) \<and>
              best_cd_rank b < entry_rank I sb j)"
proof (induction "unat count - unat i" arbitrary: i b rule: less_induct)
  case less
  show ?case
  proof (cases "i < count")
    case False
    then show ?thesis
      by (simp add: scan_done)
  next
    case i: True
    note IH = less.hyps [OF word_succ_measure [OF i]]
    note up = word_succ_less [OF i, THEN less_imp_le]
    show ?thesis
    proof (cases "sz < ucast (entry_offset I sb i)")
      case True
      then show ?thesis
        by (simp add: scan_step_far [OF img idx i])
    next
      case False
      then have off: "ucast (entry_offset I sb i) \<le> sz"
        by simp
      show ?thesis
      proof (cases "qualifying I sb i")
        case False
        from IH [of b] up show ?thesis
          unfolding scan_step_skip [OF img idx i off False] by blast
      next
        case q: True
        show ?thesis
        proof (cases "valid_entry I sb sz i")
          case False
          then show ?thesis
            by (simp add: scan_step_invalid [OF img idx i off q])
        next
          case v: True
          show ?thesis
          proof (cases "best_cd_rank b < entry_rank I sb i")
            case False
            from IH [of b] up show ?thesis
              unfolding scan_step_valid [OF img idx i off q v] using False by auto
          next
            case True
            have rc: "best_cd_rank (candidate I sb i) = entry_rank I sb i"
              by (simp add: candidate_def)
            from IH [of "candidate I sb i"] have
              "cs_superblob_scan I sb sz count (i + 1) (candidate I sb i) = Inr None \<or>
               cs_superblob_scan I sb sz count (i + 1) (candidate I sb i) = Inr (Some (candidate I sb i)) \<or>
               (\<exists>j. i + 1 \<le> j \<and> j < count \<and> qualifying I sb j \<and> valid_entry I sb sz j \<and>
                  ucast (entry_offset I sb j) \<le> sz \<and>
                  cs_superblob_scan I sb sz count (i + 1) (candidate I sb i) = Inr (Some (candidate I sb j)) \<and>
                  entry_rank I sb i < entry_rank I sb j)"
              unfolding rc .
            then show ?thesis
              unfolding scan_step_valid [OF img idx i off q v] using True i q v off up
              by (auto intro: less_trans)
          qed
        qed
      qed
    qed
  qed
qed

lemma superblob_in_imageD:
  assumes "superblob_in_image I sb sz"
  shows "in_image I sb (unat sz)"
    and "unat sizeof_CS_SuperBlob + unat sizeof_CS_BlobIndex * unat (ucast (sb_count I sb) :: u64) \<le> unat sz"
  using assms by (simp_all add: superblob_in_image_def unat_ucast32)

text \<open>The result of the whole operation once the loop has selected entry \<open>w\<close>.\<close>

lemma cs_superblob_cdhash_selected:
  assumes sb: "superblob_in_image I sb sz"
    and scan: "cs_superblob_scan I sb sz (ucast (sb_count I sb)) 0 no_best = Inr (Some (candidate I sb w))"
    and off: "ucast (entry_offset I sb w) \<le> sz"
    and val: "valid_entry I sb sz w"
  shows "cs_superblob_cdhash I D sb sz = Inr (cd_digest I D (entry_cd I sb w))"
  using candidate_cdhash(1) [OF sb off val] candidate_cdhash(2) [OF sb off val, of D]
  by (simp add: cs_superblob_cdhash_scan [OF sb] scan)

lemma scan_first_best:
  assumes sb: "superblob_in_image I sb sz"
    and ok: "\<forall>j. j < ucast (sb_count I sb) \<longrightarrow>
       ucast (entry_offset I sb j) \<le> sz \<and> (qualifying I sb j \<longrightarrow> valid_entry I sb sz j)"
    and w: "w < ucast (sb_count I sb)" "qualifying I sb w" "entry_rank I sb w \<noteq> 0"
    and top: "\<forall>k. k < ucast (sb_count I sb) \<and> qualifying I sb k \<longrightarrow> entry_rank I sb k \<le> entry_rank I sb w"
    and first: "\<forall>k. k < w \<and> qualifying I sb k \<longrightarrow> entry_rank I sb k < entry_rank I sb w"
  shows "cs_superblob_scan I sb sz (ucast (sb_count I sb)) 0 no_best = Inr (Some (candidate I sb w))"
proof -
  define count :: u64 where "count = ucast (sb_count I sb)"
  note img = superblob_in_imageD(1) [OF sb] and idx = superblob_in_imageD(2) [OF sb, folded count_def]
  from ok have ok0: "\<forall>j. 0 \<le> j \<and> j < count \<longrightarrow>
       ucast (entry_offset I sb j) \<le> sz \<and> (qualifying I sb j \<longrightarrow> valid_entry I sb sz j)"
    by (simp add: count_def)
  from scan_selects [OF img idx ok0, of no_best] obtain b' where
    r: "cs_superblob_scan I sb sz count 0 no_best = Inr (Some b')" and
    d: "(b' = no_best \<and>
         (\<forall>j. 0 \<le> j \<and> j < count \<and> qualifying I sb j \<longrightarrow> entry_rank I sb j \<le> best_cd_rank no_best)) \<or>
        (\<exists>j. 0 \<le> j \<and> j < count \<and> qualifying I sb j \<and> b' = candidate I sb j \<and>
             best_cd_rank no_best < entry_rank I sb j \<and>
             (\<forall>k. 0 \<le> k \<and> k < count \<and> qualifying I sb k \<longrightarrow>
                  entry_rank I sb k \<le> entry_rank I sb j) \<and>
             (\<forall>k. 0 \<le> k \<and> k < j \<and> qualifying I sb k \<longrightarrow>
                  entry_rank I sb k < entry_rank I sb j))"
    by blast
  from w have "\<not> entry_rank I sb w \<le> best_cd_rank no_best"
    by (simp add: no_best_def)
  with d w(1,2) obtain j where j: "j < count" "qualifying I sb j" "b' = candidate I sb j"
    and jtop: "\<forall>k. k < count \<and> qualifying I sb k \<longrightarrow> entry_rank I sb k \<le> entry_rank I sb j"
    and jfirst: "\<forall>k. k < j \<and> qualifying I sb k \<longrightarrow> entry_rank I sb k < entry_rank I sb j"
    unfolding count_def [symmetric] by auto
  from jtop w(1,2) have "entry_rank I sb w \<le> entry_rank I sb j"
    by (simp add: count_def)
  moreover from top j(1,2) have "entry_rank I sb j \<le> entry_rank I sb w"
    by (simp add: count_def)
  ultimately have eq: "entry_rank I sb j = entry_rank I sb w"
    by simp
  have "j = w"
  proof (rule ccontr)
    assume "j \<noteq> w"
    then consider "j < w" | "w < j"
      by (auto simp: neq_iff)
    then show False
    proof cases
      case 1
      with first j(2) eq show False
        by auto
    next
      case 2
      with jfirst w(2) eq show False
        by auto
    qed
  qed
  with r j(3) show ?thesis
    by (simp add: count_def)
qed

lemmas hash_type_defs =
  CS_HASHTYPE_SHA1_def CS_HASHTYPE_SHA256_def CS_HASHTYPE_SHA256_TRUNCATED_def
  CS_HASHTYPE_SHA384_def

lemma rank_scan_values:
  "ucast ht = CS_HASHTYPE_SHA1 \<Longrightarrow> rank_scan ht 0 = 1"
  "ucast ht = CS_HASHTYPE_SHA256_TRUNCATED \<Longrightarrow> rank_scan ht 0 = 2"
  "ucast ht = CS_HASHTYPE_SHA256 \<Longrightarrow> rank_scan ht 0 = 3"
  "ucast ht = CS_HASHTYPE_SHA384 \<Longrightarrow> rank_scan ht 0 = 4"
  by (simp_all add: rank_scan_0 hash_type_defs)

lemma rank_scan_le_4: "rank_scan ht 0 \<le> 4"
  by (simp add: rank_scan_0)

lemma rank_scan_inverse:
  "rank_scan ht 0 = 4 \<Longrightarrow> ucast ht = CS_HASHTYPE_SHA384"
  "rank_scan ht 0 = 2 \<Longrightarrow> ucast ht = CS_HASHTYPE_SHA256_TRUNCATED"
  by (simp_all add: rank_scan_0 split: if_splits)



lemma scan_picks:
  assumes sb: "superblob_in_image I sb sz"
    and ok: "\<forall>j. j < ucast (sb_count I sb) \<longrightarrow>
       ucast (entry_offset I sb j) \<le> sz \<and> (qualifying I sb j \<longrightarrow> valid_entry I sb sz j)"
    and e: "e < ucast (sb_count I sb)" "qualifying I sb e" "entry_rank I sb e \<noteq> 0"
  shows "\<exists>j. j < ucast (sb_count I sb) \<and> qualifying I sb j \<and>
     cs_superblob_scan I sb sz (ucast (sb_count I sb)) 0 no_best = Inr (Some (candidate I sb j)) \<and>
     (\<forall>k. k < ucast (sb_count I sb) \<and> qualifying I sb k \<longrightarrow> entry_rank I sb k \<le> entry_rank I sb j) \<and>
     (\<forall>k. k < j \<and> qualifying I sb k \<longrightarrow> entry_rank I sb k < entry_rank I sb j)"
proof -
  define count :: u64 where "count = ucast (sb_count I sb)"
  note img = superblob_in_imageD(1) [OF sb] and idx = superblob_in_imageD(2) [OF sb, folded count_def]
  from ok have ok0: "\<forall>j. 0 \<le> j \<and> j < count \<longrightarrow>
       ucast (entry_offset I sb j) \<le> sz \<and> (qualifying I sb j \<longrightarrow> valid_entry I sb sz j)"
    by (simp add: count_def)
  from scan_selects [OF img idx ok0, of no_best] obtain b' where
    r: "cs_superblob_scan I sb sz count 0 no_best = Inr (Some b')" and
    d: "(b' = no_best \<and>
         (\<forall>j. 0 \<le> j \<and> j < count \<and> qualifying I sb j \<longrightarrow> entry_rank I sb j \<le> best_cd_rank no_best)) \<or>
        (\<exists>j. 0 \<le> j \<and> j < count \<and> qualifying I sb j \<and> b' = candidate I sb j \<and>
             best_cd_rank no_best < entry_rank I sb j \<and>
             (\<forall>k. 0 \<le> k \<and> k < count \<and> qualifying I sb k \<longrightarrow>
                  entry_rank I sb k \<le> entry_rank I sb j) \<and>
             (\<forall>k. 0 \<le> k \<and> k < j \<and> qualifying I sb k \<longrightarrow>
                  entry_rank I sb k < entry_rank I sb j))"
    by blast
  from e have "\<not> entry_rank I sb e \<le> best_cd_rank no_best"
    by (simp add: no_best_def)
  with d e(1,2) obtain j where "j < count" "qualifying I sb j" "b' = candidate I sb j"
    "\<forall>k. k < count \<and> qualifying I sb k \<longrightarrow> entry_rank I sb k \<le> entry_rank I sb j"
    "\<forall>k. k < j \<and> qualifying I sb k \<longrightarrow> entry_rank I sb k < entry_rank I sb j"
    unfolding count_def [symmetric] by auto
  with r show ?thesis
    unfolding count_def [symmetric] by blast
qed

lemma scan_nothing_ranked:
  assumes sb: "superblob_in_image I sb sz"
    and ok: "\<forall>j. j < ucast (sb_count I sb) \<longrightarrow>
       ucast (entry_offset I sb j) \<le> sz \<and>
       (qualifying I sb j \<longrightarrow> valid_entry I sb sz j \<and> entry_rank I sb j = 0)"
  shows "cs_superblob_scan I sb sz (ucast (sb_count I sb)) 0 no_best = Inr (Some no_best)"
proof -
  define count :: u64 where "count = ucast (sb_count I sb)"
  note img = superblob_in_imageD(1) [OF sb] and idx = superblob_in_imageD(2) [OF sb, folded count_def]
  from ok have ok0: "\<forall>j. 0 \<le> j \<and> j < count \<longrightarrow>
       ucast (entry_offset I sb j) \<le> sz \<and> (qualifying I sb j \<longrightarrow> valid_entry I sb sz j)"
    by (simp add: count_def)
  from ok have zero: "\<And>j. j < count \<Longrightarrow> qualifying I sb j \<Longrightarrow> entry_rank I sb j = 0"
    by (simp add: count_def)
  from scan_selects [OF img idx ok0, of no_best] zero show ?thesis
    unfolding count_def [symmetric] by (auto simp: no_best_def)
qed

lemma cs_superblob_cdhash_scan_failed:
  assumes "superblob_in_image I sb sz"
    and "cs_superblob_scan I sb sz (ucast (sb_count I sb)) 0 no_best = Inr None \<or>
         cs_superblob_scan I sb sz (ucast (sb_count I sb)) 0 no_best = Inr (Some no_best)"
  shows "cs_superblob_cdhash I D sb sz = Inr failed"
  using assms(2) by (auto simp: cs_superblob_cdhash_scan [OF assms(1)] no_best_def)

lemma ucast8_32_inj: "(ucast (x :: u8) :: u32) = ucast y \<Longrightarrow> x = y"
proof -
  assume "(ucast x :: u32) = ucast y"
  then have "(ucast (ucast x :: u32) :: u8) = ucast (ucast y :: u32)"
    by simp
  then show "x = y"
    by (simp add: ucast_up_ucast_id is_up)
qed

lemma cs_codedirectory_cdhash_true_iff:
  assumes "cs_codedirectory_cdhash I D cd s = Inr (ok, out)"
  shows "ok = (ucast (cd_hashType I cd) = CS_HASHTYPE_SHA1 \<or>
               ucast (cd_hashType I cd) = CS_HASHTYPE_SHA256)"
proof -
  from assms obtain l where l: "load32 I (cd + off_length) = Inr l"
    by (cases "load32 I (cd + off_length)") (auto simp: cs_codedirectory_cdhash_def)
  with assms obtain h where h: "load8 I (cd + off_hashType) = Inr h"
    by (cases "load8 I (cd + off_hashType)") (auto simp: cs_codedirectory_cdhash_def Let_def)
  then have hh: "h = cd_hashType I cd"
    by (auto simp: load8_def cd_hashType_def split: if_splits)
  show ?thesis
  proof (cases "ucast h = CS_HASHTYPE_SHA1")
    case True
    with assms l h have "ok = True"
      by (cases "cdhash_sha1 I D cd (ucast (ntohl l))")
        (auto simp: cs_codedirectory_cdhash_def Let_def)
    with True hh show ?thesis
      by simp
  next
    case False
    show ?thesis
    proof (cases "ucast h = CS_HASHTYPE_SHA256")
      case True
      with assms l h False have "ok = True"
        by (cases "cdhash_sha256 I D cd (ucast (ntohl l))")
          (auto simp: cs_codedirectory_cdhash_def Let_def)
      with True hh show ?thesis
        by simp
    next
      case nope: False
      with assms l h False have "ok = False"
        by (simp add: cs_codedirectory_cdhash_def Let_def failed_def)
      with False nope hh show ?thesis
        by simp
    qed
  qed
qed

section \<open>Word arithmetic of the signature region\<close>

lemma unat_u64_bound: "unat (x :: u64) < 2 ^ 64"
proof -
  have "unat x < 2 ^ LENGTH(64)"
    by (rule unsigned_less)
  then show ?thesis
    by simp
qed

lemma unat_plus_u64:
  "unat (p + q :: u64) =
     (if unat p + unat q < 2 ^ 64 then unat p + unat q else unat p + unat q - 2 ^ 64)"
  using unat_plus_if' [of p q] by simp

lemma word_less_add_no_wrap:
  fixes p q :: u64
  assumes "p < p + q"
  shows "unat (p + q) = unat p + unat q" and "0 < q"
proof -
  from assms have "unat p < unat (p + q)"
    by (simp add: word_less_nat_alt)
  with unat_u64_bound [of q] have fit: "unat p + unat q < 2 ^ 64"
    by (simp add: unat_plus_u64 split: if_splits)
  then show "unat (p + q) = unat p + unat q"
    by (simp add: unat_plus_u64)
  from assms show "0 < q"
    by (cases "q = 0") (simp_all add: word_neq_0_conv)
qed

lemma word_le_add_no_wrap:
  fixes p r s :: u64
  assumes "0 < r" and "r \<le> p + s" and "unat p + unat s \<le> 2 ^ 64"
  shows "unat (p + s) = unat p + unat s"
proof -
  from assms(1,2) have "0 < unat (p + s)"
    by (simp add: word_less_nat_alt word_le_nat_alt)
  with assms(3) show ?thesis
    by (simp add: unat_plus_u64 split: if_splits)
qed

lemma region_accepted_inside:
  fixes mh x y sz :: u64
  assumes "mh < mh + x" and "mh + x < mh + x + y" and "mh + x + y \<le> mh + sz"
    and "unat mh + unat sz \<le> 2 ^ 64"
  shows "0 < x \<and> 0 < y \<and> unat x + unat y \<le> unat sz \<and> unat (mh + x) = unat mh + unat x \<and>
         unat (mh + x + y) = unat mh + unat x + unat y"
proof -
  note a = word_less_add_no_wrap [OF assms(1)]
  note b = word_less_add_no_wrap [OF assms(2)]
  from assms(2) have "0 < mh + x + y"
    by (simp add: word_less_nat_alt)
  from word_le_add_no_wrap [OF this assms(3,4)] have c: "unat (mh + sz) = unat mh + unat sz" .
  from assms(3) have "unat (mh + x + y) \<le> unat (mh + sz)"
    by (simp add: word_le_nat_alt)
  with a b c show ?thesis
    by simp
qed

section \<open>The concrete files, parsed\<close>

lemma index_lt_2: "(j :: u64) < 2 \<longleftrightarrow> j = 0 \<or> j = 1"
  by unat_arith

lemmas layout_defs =
  sb_count_def entry_type_def entry_offset_def entry_cd_def index_entry_def off_count_def
  off_offset_def off_length_def off_hashType_def sizeof_CS_SuperBlob_def sizeof_CS_BlobIndex_def
  cd_magic_def cd_length_def cd_hashType_def

lemmas slot_defs =
  CSSLOT_CODEDIRECTORY_def CSSLOT_ALTERNATE_CODEDIRECTORIES_def
  CSSLOT_ALTERNATE_CODEDIRECTORY_LIMIT_def

lemma signed_superblob:
  "superblob_in_image (in_file (signed_file h0 h1)) 0x100000100 0x200"
  "ucast (sb_count (in_file (signed_file h0 h1)) 0x100000100) = (2 :: u64)"
  by (simp_all add: superblob_in_image_def NULL_def in_file_bounds layout_defs signed_fields)

lemma signed_entries:
  "entry_type (in_file (signed_file h0 h1)) 0x100000100 0 = 0"
  "entry_offset (in_file (signed_file h0 h1)) 0x100000100 0 = 0x20"
  "entry_type (in_file (signed_file h0 h1)) 0x100000100 1 = 0x1000"
  "entry_offset (in_file (signed_file h0 h1)) 0x100000100 1 = 0x80"
  by (simp_all add: layout_defs signed_fields)

lemma signed_qualifying:
  "qualifying (in_file (signed_file h0 h1)) 0x100000100 0"
  "qualifying (in_file (signed_file h0 h1)) 0x100000100 1"
  by (simp_all add: qualifying_def signed_entries slot_defs)

lemma signed_cds:
  "entry_cd (in_file (signed_file h0 h1)) 0x100000100 0 = 0x100000120"
  "entry_cd (in_file (signed_file h0 h1)) 0x100000100 1 = 0x100000180"
  "cd_hashType (in_file (signed_file h0 h1)) 0x100000120 = h0"
  "cd_hashType (in_file (signed_file h0 h1)) 0x100000180 = h1"
  "cd_length (in_file (signed_file h0 h1)) 0x100000120 = 88"
  "cd_length (in_file (signed_file h0 h1)) 0x100000180 = 96"
  by (simp_all add: entry_cd_def signed_entries layout_defs signed_fields)

lemma signed_validate:
  "cs_codedirectory_validate (in_file (signed_file h0 h1)) 0x100000120 0x1e0 = Inr 88"
  "cs_codedirectory_validate (in_file (signed_file h0 h1)) 0x100000180 0x180 = Inr 96"
proof -
  have "in_image (in_file (signed_file h0 h1)) 0x100000120 (unat (0x1e0 :: u64))"
    by (simp add: in_file_bounds)
  from validate_in_image [OF this]
  show "cs_codedirectory_validate (in_file (signed_file h0 h1)) 0x100000120 0x1e0 = Inr 88"
    by (simp add: layout_defs signed_fields CSMAGIC_CODEDIRECTORY_def sizeof_CS_CodeDirectory_def)
  have "in_image (in_file (signed_file h0 h1)) 0x100000180 (unat (0x180 :: u64))"
    by (simp add: in_file_bounds)
  from validate_in_image [OF this]
  show "cs_codedirectory_validate (in_file (signed_file h0 h1)) 0x100000180 0x180 = Inr 96"
    by (simp add: layout_defs signed_fields CSMAGIC_CODEDIRECTORY_def sizeof_CS_CodeDirectory_def)
qed

lemma signed_valid:
  "valid_entry (in_file (signed_file h0 h1)) 0x100000100 0x200 0"
  "valid_entry (in_file (signed_file h0 h1)) 0x100000100 0x200 1"
  by (simp_all add: valid_entry_def signed_cds signed_entries signed_validate)

lemma toy_sha256:
  "cd_length I cd = 96 \<Longrightarrow>
   take CS_CDHASH_LEN (CC_SHA256 toy_digests (cd_bytes I cd)) = 96 # replicate 19 0x22"
  "cd_length I cd = 88 \<Longrightarrow>
   take CS_CDHASH_LEN (CC_SHA256 toy_digests (cd_bytes I cd)) = 88 # replicate 19 0x22"
  by (simp_all add: toy_digests_def CS_CDHASH_LEN_def cd_bytes_def)

lemma rank_values:
  "rank_scan 0 0 = 0" "rank_scan 1 0 = 1" "rank_scan 2 0 = 3" "rank_scan 3 0 = 2"
  "rank_scan 4 0 = 4" "rank_scan 9 0 = 0"
  by (simp_all add: rank_scan_0 hash_type_defs)

lemma signed_ranks:
  "entry_rank (in_file (signed_file h0 h1)) 0x100000100 0 = rank_scan h0 0"
  "entry_rank (in_file (signed_file h0 h1)) 0x100000100 1 = rank_scan h1 0"
  by (simp_all add: entry_rank_def signed_cds)

lemma far_superblob:
  "superblob_in_image (in_file far_file) 0x100000100 0x200"
  "ucast (sb_count (in_file far_file) 0x100000100) = (2 :: u64)"
  "entry_offset (in_file far_file) 0x100000100 1 = 0x201"
  "\<not> qualifying (in_file far_file) 0x100000100 1"
  by (simp_all add: superblob_in_image_def NULL_def in_file_bounds layout_defs far_fields
      qualifying_def slot_defs)

lemma badcd_superblob:
  "superblob_in_image (in_file badcd_file) 0x100000100 0x200"
  "ucast (sb_count (in_file badcd_file) 0x100000100) = (2 :: u64)"
  "entry_offset (in_file badcd_file) 0x100000100 0 = 0x20"
  "entry_offset (in_file badcd_file) 0x100000100 1 = 0x80"
  "qualifying (in_file badcd_file) 0x100000100 1"
  by (simp_all add: superblob_in_image_def NULL_def in_file_bounds layout_defs badcd_fields
      qualifying_def slot_defs)

lemma badcd_invalid: "\<not> valid_entry (in_file badcd_file) 0x100000100 0x200 1"
proof -
  have "in_image (in_file badcd_file) 0x100000180 (unat (0x180 :: u64))"
    by (simp add: in_file_bounds)
  from validate_in_image [OF this]
  have "cs_codedirectory_validate (in_file badcd_file) 0x100000180 0x180 = Inr 0"
    by (simp add: layout_defs badcd_fields CSMAGIC_CODEDIRECTORY_def)
  then show ?thesis
    by (simp add: valid_entry_def entry_cd_def badcd_superblob)
qed

lemma badcd_valid: "valid_entry (in_file badcd_file) 0x100000100 0x200 0"
proof -
  have "in_image (in_file badcd_file) 0x100000120 (unat (0x1e0 :: u64))"
    by (simp add: in_file_bounds)
  from validate_in_image [OF this]
  have "cs_codedirectory_validate (in_file badcd_file) 0x100000120 0x1e0 = Inr 88"
    by (simp add: layout_defs badcd_fields CSMAGIC_CODEDIRECTORY_def sizeof_CS_CodeDirectory_def)
  then show ?thesis
    by (simp add: valid_entry_def entry_cd_def badcd_superblob)
qed

lemma index_lt_3: "(j :: u64) < 3 \<longleftrightarrow> j = 0 \<or> j = 1 \<or> j = 2"
  by unat_arith







lemmas macho_defs =
  MH_MAGIC_64_def LC_CODE_SIGNATURE_def sizeof_mach_header_64_def off_sizeofcmds_def
  off_cmdsize_def off_dataoff_def off_datasize_def

lemma unsigned_validate:
  "macho_identify (in_file unsigned_file) 0x100000000 0x1000 = Inr True"
  "macho_validate (in_file unsigned_file) 0x100000000 0x1000 = Some (Inr True)"
proof -
  show i: "macho_identify (in_file unsigned_file) 0x100000000 0x1000 = Inr True"
    by (simp add: macho_identify_def load32_def in_file_bounds unsigned_fields macho_defs)
  have "macho_validate_walk (in_file unsigned_file) 0x100000020 0x100000020 = Some (Inr True)"
    by (subst macho_validate_walk.simps) simp
  with i show "macho_validate (in_file unsigned_file) 0x100000000 0x1000 = Some (Inr True)"
    by (simp add: macho_validate_def load32_def in_file_bounds unsigned_fields macho_defs)
qed

lemma unsigned_find:
  "macho_find_load_command (in_file unsigned_file) 0x100000000 0x1000 LC_CODE_SIGNATURE NULL =
     Some (Inr NULL)"
  by (subst macho_find_load_command.simps)
    (simp add: macho_next_load_command_def load32_def in_file_bounds unsigned_fields macho_defs
      NULL_def)

lemma signed_validate_macho:
  "macho_identify (in_file (signed_file h0 h1)) 0x100000000 0x1000 = Inr True"
  "macho_validate (in_file (signed_file h0 h1)) 0x100000000 0x1000 = Some (Inr True)"
proof -
  show i: "macho_identify (in_file (signed_file h0 h1)) 0x100000000 0x1000 = Inr True"
    by (simp add: macho_identify_def load32_def in_file_bounds signed_macho_fields macho_defs)
  have "macho_validate_walk (in_file (signed_file h0 h1)) 0x100000030 0x100000030 = Some (Inr True)"
    by (subst macho_validate_walk.simps) simp
  then have "macho_validate_walk (in_file (signed_file h0 h1)) 0x100000020 0x100000030 =
      Some (Inr True)"
    by (subst macho_validate_walk.simps)
      (simp add: load32_def in_file_bounds signed_macho_fields macho_defs)
  with i show "macho_validate (in_file (signed_file h0 h1)) 0x100000000 0x1000 = Some (Inr True)"
    by (simp add: macho_validate_def load32_def in_file_bounds signed_macho_fields macho_defs)
qed

lemma signed_find:
  "macho_find_load_command (in_file (signed_file h0 h1)) 0x100000000 0x1000 LC_CODE_SIGNATURE NULL =
     Some (Inr 0x100000020)"
  by (subst macho_find_load_command.simps)
    (simp add: macho_next_load_command_def load32_def in_file_bounds signed_macho_fields
      macho_defs NULL_def)

lemma signed_csblob:
  "csblob_cdhash (in_file (signed_file h0 h1)) D 0x100000100 0x200 =
     cs_superblob_cdhash (in_file (signed_file h0 h1)) D 0x100000100 0x200"
proof -
  have "cs_superblob_validate (in_file (signed_file h0 h1)) 0x100000100 0x200 = Inr 0x200"
    by (simp add: cs_superblob_validate_def load32_def in_file_bounds be32_def [symmetric]
        signed_macho_fields signed_fields Let_def layout_defs CSMAGIC_EMBEDDED_SIGNATURE_def)
  then show ?thesis
    by (simp add: csblob_cdhash_def load32_def in_file_bounds be32_def [symmetric]
        signed_macho_fields Let_def off_length_def sizeof_CS_GenericBlob_def
        CSMAGIC_EMBEDDED_SIGNATURE_def)
qed


lemma signed_sha256_digest:
  "cs_superblob_cdhash (in_file (signed_file 1 2)) toy_digests 0x100000100 0x200 =
     Inr (True, Some (96 # replicate 19 0x22))"
proof -
  let ?I = "in_file (signed_file 1 2)"
  have ok: "\<forall>j. j < ucast (sb_count ?I 0x100000100) \<longrightarrow>
      ucast (entry_offset ?I 0x100000100 j) \<le> (0x200 :: u64) \<and>
      (qualifying ?I 0x100000100 j \<longrightarrow> valid_entry ?I 0x100000100 0x200 j)"
    by (auto simp: signed_superblob signed_entries signed_valid index_lt_2)
  have top: "\<forall>k. k < ucast (sb_count ?I 0x100000100) \<and> qualifying ?I 0x100000100 k \<longrightarrow>
      entry_rank ?I 0x100000100 k \<le> entry_rank ?I 0x100000100 1"
    by (auto simp: signed_superblob signed_ranks rank_values index_lt_2)
  have first: "\<forall>k. k < 1 \<and> qualifying ?I 0x100000100 k \<longrightarrow>
      entry_rank ?I 0x100000100 k < entry_rank ?I 0x100000100 1"
    by (auto simp: signed_ranks rank_values word_less_1)
  have "cs_superblob_scan ?I 0x100000100 0x200 (ucast (sb_count ?I 0x100000100)) 0 no_best =
      Inr (Some (candidate ?I 0x100000100 1))"
    by (rule scan_first_best [OF signed_superblob(1) ok _ signed_qualifying(2) _ top first])
      (simp_all add: signed_superblob signed_ranks rank_values)
  from cs_superblob_cdhash_selected [OF signed_superblob(1) this _ signed_valid(2), of toy_digests]
  show ?thesis
    by (simp add: signed_entries signed_cds cd_digest_def hash_type_defs toy_sha256)
qed

lemma signed_macho_digest:
  "compute_cdhash_macho (in_file (signed_file 1 2)) toy_digests 0x100000000 0x1000 =
     Some (Inr (True, Some (96 # replicate 19 0x22)))"
  unfolding compute_cdhash_macho_def signed_find
  by (simp add: NULL_def load32_def in_file_bounds signed_macho_fields macho_defs signed_csblob
      signed_sha256_digest)

lemma signed_digest:
  "compute_cdhash (signed_file 1 2) toy_digests 0x100000000 0x1000 =
     Some (Inr (True, Some (96 # replicate 19 0x22)))"
  by (simp add: compute_cdhash_def in_file_def [symmetric] signed_validate_macho
      signed_macho_digest)

lemma unsigned_fails:
  "compute_cdhash unsigned_file toy_digests 0x100000000 0x1000 = Some (Inr failed)"
  unfolding compute_cdhash_def Let_def in_file_def [symmetric] compute_cdhash_macho_def
    unsigned_validate unsigned_find
  by simp

lemma tail_validate:
  "macho_identify (in_file tail_file) 0x100000000 0x1000 = Inr True"
  "macho_validate (in_file tail_file) 0x100000000 0x1000 = Some (Inr True)"
proof -
  show i: "macho_identify (in_file tail_file) 0x100000000 0x1000 = Inr True"
    by (simp add: macho_identify_def load32_def in_file_bounds tail_fields macho_defs)
  have "macho_validate_walk (in_file tail_file) 0x100001000 0x100001000 = Some (Inr True)"
    by (subst macho_validate_walk.simps) simp
  then have "macho_validate_walk (in_file tail_file) 0x100000ff8 0x100001000 = Some (Inr True)"
    by (subst macho_validate_walk.simps)
      (simp add: load32_def in_file_bounds tail_fields macho_defs)
  then have "macho_validate_walk (in_file tail_file) 0x100000020 0x100001000 = Some (Inr True)"
    by (subst macho_validate_walk.simps)
      (simp add: load32_def in_file_bounds tail_fields macho_defs)
  with i show "macho_validate (in_file tail_file) 0x100000000 0x1000 = Some (Inr True)"
    by (simp add: macho_validate_def load32_def in_file_bounds tail_fields macho_defs)
qed

lemma tail_find:
  "macho_find_load_command (in_file tail_file) 0x100000000 0x1000 LC_CODE_SIGNATURE NULL =
     Some (Inr 0x100000ff8)"
proof -
  have "macho_find_load_command (in_file tail_file) 0x100000000 0x1000 LC_CODE_SIGNATURE
      0x100000020 = Some (Inr 0x100000ff8)"
    by (subst macho_find_load_command.simps)
      (simp add: macho_next_load_command_def load32_def in_file_bounds tail_fields macho_defs
        NULL_def)
  then show ?thesis
    by (subst macho_find_load_command.simps)
      (simp add: macho_next_load_command_def load32_def in_file_bounds tail_fields macho_defs
        NULL_def)
qed

section \<open>A store to the output buffer comes with returning true\<close>

lemma cs_codedirectory_cdhash_written:
  assumes "cs_codedirectory_cdhash I D cd s = Inr (ok, out)"
  shows "ok = (out \<noteq> None)"
proof -
  from assms obtain l where l: "load32 I (cd + off_length) = Inr l"
    by (cases "load32 I (cd + off_length)") (auto simp: cs_codedirectory_cdhash_def)
  with assms obtain h where h: "load8 I (cd + off_hashType) = Inr h"
    by (cases "load8 I (cd + off_hashType)") (auto simp: cs_codedirectory_cdhash_def Let_def)
  show ?thesis
  proof (cases "ucast h = CS_HASHTYPE_SHA1")
    case True
    with assms l h show ?thesis
      by (cases "cdhash_sha1 I D cd (ucast (ntohl l))")
        (auto simp: cs_codedirectory_cdhash_def Let_def)
  next
    case False
    show ?thesis
    proof (cases "ucast h = CS_HASHTYPE_SHA256")
      case True
      with assms l h False show ?thesis
        by (cases "cdhash_sha256 I D cd (ucast (ntohl l))")
          (auto simp: cs_codedirectory_cdhash_def Let_def)
    next
      case nope: False
      with assms l h False show ?thesis
        by (simp add: cs_codedirectory_cdhash_def Let_def failed_def)
    qed
  qed
qed

lemma cs_superblob_cdhash_written:
  assumes "cs_superblob_cdhash I D sb sz = Inr (ok, out)"
  shows "ok = (out \<noteq> None)"
proof -
  from assms obtain c where c: "load32 I (sb + off_count) = Inr c"
    by (cases "load32 I (sb + off_count)") (auto simp: cs_superblob_cdhash_def)
  with assms obtain r where r: "cs_superblob_scan I sb sz (ucast (ntohl c)) 0 no_best = Inr r"
    by (cases "cs_superblob_scan I sb sz (ucast (ntohl c)) 0 no_best")
      (auto simp: cs_superblob_cdhash_def Let_def)
  show ?thesis
  proof (cases r)
    case None
    with assms c r show ?thesis
      by (simp add: cs_superblob_cdhash_def Let_def failed_def)
  next
    case (Some b)
    show ?thesis
    proof (cases "best_cd b = NULL")
      case True
      with assms c r Some show ?thesis
        by (simp add: cs_superblob_cdhash_def Let_def failed_def)
    next
      case False
      with assms c r Some
      have "cs_codedirectory_cdhash I D (best_cd b) (best_cd_size b) = Inr (ok, out)"
        by (simp add: cs_superblob_cdhash_def Let_def)
      then show ?thesis
        by (rule cs_codedirectory_cdhash_written)
    qed
  qed
qed

lemma csblob_cdhash_written:
  assumes "csblob_cdhash I D blob sz = Inr (ok, out)"
  shows "ok = (out \<noteq> None)"
proof (cases "sz < sizeof_CS_GenericBlob")
  case True
  with assms show ?thesis
    by (simp add: csblob_cdhash_def failed_def)
next
  case big: False
  with assms obtain m where m: "load32 I blob = Inr m"
    by (cases "load32 I blob") (auto simp: csblob_cdhash_def)
  with assms big obtain l where l: "load32 I (blob + off_length) = Inr l"
    by (cases "load32 I (blob + off_length)") (auto simp: csblob_cdhash_def Let_def)
  let ?len = "ucast (ntohl l) :: u64"
  show ?thesis
  proof (cases "?len > sz")
    case True
    with assms big m l show ?thesis
      by (simp add: csblob_cdhash_def Let_def failed_def)
  next
    case fits: False
    show ?thesis
    proof (cases "ntohl m = CSMAGIC_EMBEDDED_SIGNATURE")
      case True
      with assms big m l fits obtain v where v: "cs_superblob_validate I blob ?len = Inr v"
        by (cases "cs_superblob_validate I blob ?len") (auto simp: csblob_cdhash_def Let_def)
      show ?thesis
      proof (cases "v = 0")
        case True
        with assms big m l fits \<open>ntohl m = CSMAGIC_EMBEDDED_SIGNATURE\<close> v show ?thesis
          by (simp add: csblob_cdhash_def Let_def failed_def)
      next
        case False
        with assms big m l fits \<open>ntohl m = CSMAGIC_EMBEDDED_SIGNATURE\<close> v
        have "cs_superblob_cdhash I D blob ?len = Inr (ok, out)"
          by (simp add: csblob_cdhash_def Let_def)
        then show ?thesis
          by (rule cs_superblob_cdhash_written)
      qed
    next
      case nosb: False
      show ?thesis
      proof (cases "ntohl m = CSMAGIC_CODEDIRECTORY")
        case True
        with assms big m l fits nosb obtain v where v: "cs_codedirectory_validate I blob ?len = Inr v"
          by (cases "cs_codedirectory_validate I blob ?len") (auto simp: csblob_cdhash_def Let_def)
        show ?thesis
        proof (cases "v = 0")
          case True
          with assms big m l fits nosb \<open>ntohl m = CSMAGIC_CODEDIRECTORY\<close> v show ?thesis
            by (simp add: csblob_cdhash_def Let_def failed_def)
        next
          case False
          with assms big m l fits nosb \<open>ntohl m = CSMAGIC_CODEDIRECTORY\<close> v
          have "cs_codedirectory_cdhash I D blob ?len = Inr (ok, out)"
            by (simp add: csblob_cdhash_def Let_def)
          then show ?thesis
            by (rule cs_codedirectory_cdhash_written)
        qed
      next
        case False
        with assms big m l fits nosb show ?thesis
          by (simp add: csblob_cdhash_def Let_def failed_def)
      qed
    qed
  qed
qed

lemma compute_cdhash_macho_written:
  assumes "compute_cdhash_macho I D mh sz = Some (Inr (ok, out))"
  shows "ok = (out \<noteq> None)"
proof -
  from assms obtain r where r: "macho_find_load_command I mh sz LC_CODE_SIGNATURE NULL = Some r"
    by (cases "macho_find_load_command I mh sz LC_CODE_SIGNATURE NULL")
      (auto simp: compute_cdhash_macho_def)
  with assms obtain cs_cmd where c: "r = Inr cs_cmd"
    by (cases r) (auto simp: compute_cdhash_macho_def)
  show ?thesis
  proof (cases "cs_cmd = NULL")
    case True
    with assms r c show ?thesis
      by (simp add: compute_cdhash_macho_def failed_def)
  next
    case False
    with assms r c obtain dataoff where d: "load32 I (cs_cmd + off_dataoff) = Inr dataoff"
      by (cases "load32 I (cs_cmd + off_dataoff)") (auto simp: compute_cdhash_macho_def)
    with assms r c False obtain datasize where s: "load32 I (cs_cmd + off_datasize) = Inr datasize"
      by (cases "load32 I (cs_cmd + off_datasize)") (auto simp: compute_cdhash_macho_def)
    let ?cs_data = "mh + ucast dataoff"
    let ?cs_end = "?cs_data + ucast datasize"
    show ?thesis
    proof (cases "mh < ?cs_data \<and> ?cs_data < ?cs_end \<and> ?cs_end \<le> mh + sz")
      case True
      with assms r c False d s
      have "csblob_cdhash I D ?cs_data (?cs_end - ?cs_data) = Inr (ok, out)"
        by (simp add: compute_cdhash_macho_def Let_def)
      then show ?thesis
        by (rule csblob_cdhash_written)
    next
      case out: False
      with assms r c False d s show ?thesis
        by (simp add: compute_cdhash_macho_def Let_def failed_def)
    qed
  qed
qed

lemma compute_cdhash_written:
  assumes "compute_cdhash m D file sz = Some (Inr (ok, out))"
  shows "ok = (out \<noteq> None)"
proof -
  let ?I = "\<lparr>bytes_at = m, base = file, extent = sz\<rparr>"
  from assms obtain ident where i: "macho_identify ?I file sz = Inr ident"
    by (cases "macho_identify ?I file sz") (auto simp: compute_cdhash_def Let_def)
  show ?thesis
  proof (cases ident)
    case False
    with assms i show ?thesis
      by (simp add: compute_cdhash_def Let_def failed_def)
  next
    case True
    with assms i obtain r where r: "macho_validate ?I file sz = Some r"
      by (cases "macho_validate ?I file sz") (auto simp: compute_cdhash_def Let_def)
    with assms i True obtain valid where v: "r = Inr valid"
      by (cases r) (auto simp: compute_cdhash_def Let_def)
    show ?thesis
    proof (cases valid)
      case False
      with assms i True r v show ?thesis
        by (simp add: compute_cdhash_def Let_def failed_def)
    next
      case ok: True
      with assms i True r v have "compute_cdhash_macho ?I D file sz = Some (Inr (ok, out))"
        by (simp add: compute_cdhash_def Let_def)
      then show ?thesis
        by (rule compute_cdhash_macho_written)
    qed
  qed
qed

section \<open>The blob layer stays inside the buffer\<close>

lemma validated_superblob_in_image:
  assumes nn: "sb \<noteq> NULL" and img: "in_image I sb (unat sz)"
    and v: "cs_superblob_validate I sb sz = Inr v" and nz: "v \<noteq> 0"
    and low: "unat sb + 2 ^ 20 \<le> 2 ^ 64"
  shows "superblob_in_image I sb sz"
proof -
  from v nz have big: "\<not> sz < sizeof_CS_SuperBlob"
    by (auto simp: cs_superblob_validate_def)
  with v nz obtain m where m: "load32 I sb = Inr m"
    by (cases "load32 I sb") (auto simp: cs_superblob_validate_def)
  with v nz big have magic: "ntohl m = CSMAGIC_EMBEDDED_SIGNATURE"
    by (auto simp: cs_superblob_validate_def Let_def split: if_splits)
  with v nz big m obtain l where l: "load32 I (sb + off_length) = Inr l"
    by (cases "load32 I (sb + off_length)") (auto simp: cs_superblob_validate_def Let_def)
  with v nz big m magic have len: "\<not> sz < ucast (ntohl l)"
    by (auto simp: cs_superblob_validate_def Let_def split: if_splits)
  with v nz big m magic l obtain c where c: "load32 I (sb + off_count) = Inr c"
    by (cases "load32 I (sb + off_count)") (auto simp: cs_superblob_validate_def Let_def)
  with v nz big m magic l len
  have count: "\<not> ntohl c \<ge> 0x10000" and index: "\<not> index_entry sb (ucast (ntohl c)) > sb + sz"
    by (auto simp: cs_superblob_validate_def Let_def split: if_splits)
  from c have cc: "ntohl c = sb_count I sb"
    by (auto simp: load32_def sb_count_def be32_def split: if_splits)
  let ?n = "unat (sb_count I sb)"
  from count cc have n: "?n < 65536"
    by (simp add: word_less_nat_alt not_le)
  let ?c = "ucast (sb_count I sb) :: u64"
  have uc: "unat ?c = ?n"
    by (rule unat_ucast32)
  from n uc have "unat (8 :: u64) * unat ?c < 2 ^ LENGTH(64)"
    by simp
  then have "unat (8 * ?c) = unat (8 :: u64) * unat ?c"
    by (rule unat_mult_lem [THEN iffD1])
  with uc have m8: "unat (8 * ?c) = 8 * ?n"
    by simp
  with n have "unat (12 :: u64) + unat (8 * ?c) < 2 ^ LENGTH(64)"
    by simp
  then have "unat (12 + 8 * ?c) = unat (12 :: u64) + unat (8 * ?c)"
    by (rule unat_add_lem [THEN iffD1])
  with m8 have d: "unat (12 + 8 * ?c) = 12 + 8 * ?n"
    by simp
  with n low have "unat sb + unat (12 + 8 * ?c) < 2 ^ LENGTH(64)"
    by simp
  then have "unat (sb + (12 + 8 * ?c)) = unat sb + unat (12 + 8 * ?c)"
    by (rule unat_add_lem [THEN iffD1])
  with d have ui: "unat (index_entry sb ?c) = unat sb + 12 + 8 * ?n"
    by (simp add: index_entry_def sizeof_CS_SuperBlob_def sizeof_CS_BlobIndex_def add.assoc)
  from index cc have le: "unat (index_entry sb ?c) \<le> unat (sb + sz)"
    by (simp add: word_le_nat_alt not_less)
  from img have fit: "unat sb + unat sz \<le> 2 ^ 64"
    by (simp add: in_image_def)
  from ui le have "0 < unat (sb + sz)"
    by simp
  with fit have "unat (sb + sz) = unat sb + unat sz"
    by (simp add: unat_plus_u64 split: if_splits)
  with ui le have "12 + 8 * ?n \<le> unat sz"
    by simp
  with nn img show ?thesis
    by (simp add: superblob_in_image_def sizeof_CS_SuperBlob_def sizeof_CS_BlobIndex_def)
qed


lemma cs_superblob_validate_total:
  assumes img: "in_image I sb (unat sz)"
  shows "\<exists>v. cs_superblob_validate I sb sz = Inr v"
proof (cases "sz < sizeof_CS_SuperBlob")
  case True
  then show ?thesis
    by (simp add: cs_superblob_validate_def)
next
  case False
  then have n: "12 \<le> unat sz"
    by (simp add: sizeof_CS_SuperBlob_def word_less_nat_alt)
  from img n have "in_image I sb 4"
    by (simp add: in_image_def)
  then have m: "load32 I sb = Inr (peek32 I sb)"
    by (rule load32_in)
  from n have "in_image I (sb + off_length) 4"
    by (intro in_image_sub [OF img]) (simp_all add: off_length_def)
  then have l: "load32 I (sb + off_length) = Inr (peek32 I (sb + off_length))"
    by (rule load32_in)
  from n have "in_image I (sb + off_count) 4"
    by (intro in_image_sub [OF img]) (simp_all add: off_count_def)
  then have c: "load32 I (sb + off_count) = Inr (peek32 I (sb + off_count))"
    by (rule load32_in)
  from m l c show ?thesis
    by (simp add: cs_superblob_validate_def Let_def)
qed

lemma cs_superblob_cdhash_total:
  assumes sb: "superblob_in_image I sb sz"
  shows "\<exists>r. cs_superblob_cdhash I D sb sz = Inr r"
proof -
  from scan_total [OF superblob_in_imageD [OF sb], of 0 no_best]
  consider "cs_superblob_scan I sb sz (ucast (sb_count I sb)) 0 no_best = Inr None"
    | "cs_superblob_scan I sb sz (ucast (sb_count I sb)) 0 no_best = Inr (Some no_best)"
    | j where "valid_entry I sb sz j" "ucast (entry_offset I sb j) \<le> sz"
        "cs_superblob_scan I sb sz (ucast (sb_count I sb)) 0 no_best = Inr (Some (candidate I sb j))"
    by blast
  then show ?thesis
  proof cases
    case 1
    then show ?thesis
      by (simp add: cs_superblob_cdhash_scan [OF sb])
  next
    case 2
    then show ?thesis
      by (simp add: cs_superblob_cdhash_scan [OF sb] no_best_def)
  next
    case 3
    from cs_superblob_cdhash_selected [OF sb 3(3) 3(2) 3(1)] show ?thesis
      by simp
  qed
qed

text \<open>
  Below the Mach-O layer every read is inside the buffer: on a blob region that lies in the
  buffer (and not within the last megabyte of the address space, where the pointer
  arithmetic of \<open>cs_superblob_validate\<close> can wrap), \<open>csblob_cdhash\<close> returns.
\<close>

lemma csblob_cdhash_in_bounds:
  assumes nn: "blob \<noteq> NULL" and img: "in_image I blob (unat sz)"
    and low: "unat blob + 2 ^ 20 \<le> 2 ^ 64"
  shows "\<exists>r. csblob_cdhash I D blob sz = Inr r"
proof (cases "sz < sizeof_CS_GenericBlob")
  case True
  then show ?thesis
    by (simp add: csblob_cdhash_def)
next
  case big: False
  then have n: "8 \<le> unat sz"
    by (simp add: sizeof_CS_GenericBlob_def word_less_nat_alt)
  from img n have "in_image I blob 4"
    by (simp add: in_image_def)
  then have m: "load32 I blob = Inr (peek32 I blob)"
    by (rule load32_in)
  from n have "in_image I (blob + off_length) 4"
    by (intro in_image_sub [OF img]) (simp_all add: off_length_def)
  then have l: "load32 I (blob + off_length) = Inr (peek32 I (blob + off_length))"
    by (rule load32_in)
  let ?len = "ucast (ntohl (peek32 I (blob + off_length))) :: u64"
  show ?thesis
  proof (cases "?len > sz")
    case True
    with big m l show ?thesis
      by (simp add: csblob_cdhash_def Let_def)
  next
    case fits: False
    then have "unat ?len \<le> unat sz"
      by (simp add: word_le_nat_alt not_less)
    with img have img': "in_image I blob (unat ?len)"
      by (rule in_image_shrink)
    show ?thesis
    proof (cases "ntohl (peek32 I blob) = CSMAGIC_EMBEDDED_SIGNATURE")
      case sbm: True
      from cs_superblob_validate_total [OF img'] obtain v
        where v: "cs_superblob_validate I blob ?len = Inr v"
        by blast
      show ?thesis
      proof (cases "v = 0")
        case True
        with big m l fits sbm v show ?thesis
          by (simp add: csblob_cdhash_def Let_def)
      next
        case False
        from validated_superblob_in_image [OF nn img' v False low]
        have "superblob_in_image I blob ?len" .
        from cs_superblob_cdhash_total [OF this, of D] big m l fits sbm v False show ?thesis
          by (simp add: csblob_cdhash_def Let_def)
      qed
    next
      case nosb: False
      show ?thesis
      proof (cases "ntohl (peek32 I blob) = CSMAGIC_CODEDIRECTORY")
        case False
        with big m l fits nosb show ?thesis
          by (simp add: csblob_cdhash_def Let_def)
      next
        case True
        from validate_in_image [OF img'] obtain v
          where v: "cs_codedirectory_validate I blob ?len = Inr v"
          by blast
        show ?thesis
        proof (cases "v = 0")
          case zero: True
          with big m l fits nosb True v show ?thesis
            by (simp add: csblob_cdhash_def Let_def)
        next
          case False
          from cdhash_of_accepted [OF img' v False, of D ?len] big m l fits nosb True v False
          show ?thesis
            by (simp add: csblob_cdhash_def Let_def)
        qed
      qed
    qed
  qed
qed

section \<open>The code-directory reader: claims C6 and C7\<close>

text \<open>
  C6: \<open>cs_codedirectory_validate\<close> with \<open>available_size\<close> bytes of the buffer at \<open>ptr\<close>
  returns the failure value 0 unless \<open>available_size\<close> is at least
  \<open>sizeof(CS_CodeDirectory)\<close>, the big-endian magic is \<open>CSMAGIC_CODEDIRECTORY\<close>, and the
  declared big-endian length is not 0 and at most \<open>available_size\<close>; otherwise it returns
  the declared length. That length may be strictly smaller than \<open>available_size\<close>: for the
  first code directory of the signed file it is 88 of \<open>0x1e0\<close> available bytes.
\<close>

theorem cs_codedirectory_validate_contract:
  assumes "in_image I cd (unat sz)"
  shows "cs_codedirectory_validate I cd sz =
           Inr (if sizeof_CS_CodeDirectory \<le> sz \<and> cd_magic I cd = CSMAGIC_CODEDIRECTORY \<and>
                   cd_length I cd \<noteq> 0 \<and> ucast (cd_length I cd) \<le> sz
                then ucast (cd_length I cd) else 0) \<and>
         (\<exists>I' cd' sz' len. cs_codedirectory_validate I' cd' sz' = Inr len \<and> len \<noteq> 0 \<and> len < sz')"
proof
  show "cs_codedirectory_validate I cd sz =
      Inr (if sizeof_CS_CodeDirectory \<le> sz \<and> cd_magic I cd = CSMAGIC_CODEDIRECTORY \<and>
              cd_length I cd \<noteq> 0 \<and> ucast (cd_length I cd) \<le> sz
           then ucast (cd_length I cd) else 0)"
    using assms by (rule validate_in_image)
  have "cs_codedirectory_validate (in_file (signed_file 1 2)) 0x100000120 0x1e0 = Inr 88 \<and>
      (88 :: u64) \<noteq> 0 \<and> (88 :: u64) < 0x1e0"
    by (simp add: signed_validate)
  then show "\<exists>I' cd' sz' len. cs_codedirectory_validate I' cd' sz' = Inr len \<and> len \<noteq> 0 \<and> len < sz'"
    by blast
qed

theorem cs_codedirectory_validate_contract_witness:
  "cs_codedirectory_validate (in_file (signed_file 1 2)) 0x100000120 0x1e0 = Inr 88 \<and>
   cs_codedirectory_validate (in_file badcd_file) 0x100000180 0x180 = Inr 0"
proof
  have "in_image (in_file (signed_file 1 2)) 0x100000120 (unat (0x1e0 :: u64))"
    by (simp add: in_file_bounds)
  from cs_codedirectory_validate_contract [OF this, THEN conjunct1]
  show "cs_codedirectory_validate (in_file (signed_file 1 2)) 0x100000120 0x1e0 = Inr 88"
    by (simp add: layout_defs signed_fields CSMAGIC_CODEDIRECTORY_def sizeof_CS_CodeDirectory_def)
  have "in_image (in_file badcd_file) 0x100000180 (unat (0x180 :: u64))"
    by (simp add: in_file_bounds)
  from cs_codedirectory_validate_contract [OF this, THEN conjunct1]
  show "cs_codedirectory_validate (in_file badcd_file) 0x100000180 0x180 = Inr 0"
    by (simp add: layout_defs badcd_fields CSMAGIC_CODEDIRECTORY_def)
qed

text \<open>
  C7, as stated: every code directory \<open>cs_codedirectory_validate\<close> accepts declares a
  length of at least \<open>sizeof(CS_CodeDirectory)\<close>. It does not hold: the code bounds the
  declared length from above only. The first code directory of \<open>short_file\<close> declares a
  length of 1 and is accepted with 1 as its length.
\<close>

theorem short_length_accepted:
  "cs_codedirectory_validate (in_file short_file) 0x100000120 0x1e0 = Inr 1 \<and>
   (1 :: u64) < sizeof_CS_CodeDirectory"
proof -
  have "in_image (in_file short_file) 0x100000120 (unat (0x1e0 :: u64))"
    by (simp add: in_file_bounds)
  from validate_in_image [OF this] show ?thesis
    by (simp add: layout_defs short_fields CSMAGIC_CODEDIRECTORY_def sizeof_CS_CodeDirectory_def)
qed

text \<open>
  C7, amended: for every code directory \<open>cs_codedirectory_validate\<close> accepts (it returns a
  length other than 0), the available size is at least \<open>sizeof(CS_CodeDirectory)\<close>, the
  magic is \<open>CSMAGIC_CODEDIRECTORY\<close>, and the returned length is the declared one, not 0
  and at most the available size.
\<close>

theorem cs_codedirectory_validate_accepted_bounds:
  assumes "cs_codedirectory_validate I cd sz = Inr len" and "len \<noteq> 0"
  shows "sizeof_CS_CodeDirectory \<le> sz \<and> cd_magic I cd = CSMAGIC_CODEDIRECTORY \<and>
         len = ucast (cd_length I cd) \<and> 0 < len \<and> len \<le> sz"
  using validate_accepts [OF assms] by blast

theorem cs_codedirectory_validate_accepted_bounds_witness:
  "sizeof_CS_CodeDirectory \<le> (0x1e0 :: u64) \<and>
   cd_magic (in_file (signed_file 1 2)) 0x100000120 = CSMAGIC_CODEDIRECTORY \<and>
   (88 :: u64) = ucast (cd_length (in_file (signed_file 1 2)) 0x100000120) \<and>
   (0 :: u64) < 88 \<and> (88 :: u64) \<le> 0x1e0"
  using cs_codedirectory_validate_accepted_bounds [OF signed_validate(1) [of 1 2]]
  by simp

section \<open>The super-blob reader: claims C3, C4, C8 and C10\<close>




text \<open>
  C4: a super-blob holds a valid code directory \<open>w\<close> of hash type SHA-384, or of
  SHA-256-truncated with no entry of higher rank, and a valid code directory \<open>l\<close> of lower
  rank, of SHA-1 or SHA-256. Then \<open>cs_superblob_cdhash\<close> fails; when no entry makes the loop
  return early, the loop has selected a code directory of \<open>w\<close>'s rank and hash type. The
  reason: \<open>cs_codedirectory_cdhash\<close> returns true for the hash types SHA-1 and SHA-256 and
  for no other, rankable or not.
\<close>

theorem unhashable_winner_fails:
  assumes sb: "superblob_in_image I sb sz"
    and w: "w < ucast (sb_count I sb)" "qualifying I sb w" "valid_entry I sb sz w"
    and hw: "ucast (cd_hashType I (entry_cd I sb w)) = CS_HASHTYPE_SHA384 \<or>
       (ucast (cd_hashType I (entry_cd I sb w)) = CS_HASHTYPE_SHA256_TRUNCATED \<and>
        (\<forall>k. k < ucast (sb_count I sb) \<and> qualifying I sb k \<longrightarrow>
             entry_rank I sb k \<le> entry_rank I sb w))"
    and l: "l < ucast (sb_count I sb)" "qualifying I sb l" "valid_entry I sb sz l"
      "ucast (cd_hashType I (entry_cd I sb l)) = CS_HASHTYPE_SHA1 \<or>
       ucast (cd_hashType I (entry_cd I sb l)) = CS_HASHTYPE_SHA256"
      "entry_rank I sb l < entry_rank I sb w"
  shows "cs_superblob_cdhash I D sb sz = Inr failed \<and>
         ((\<forall>j. j < ucast (sb_count I sb) \<longrightarrow>
              ucast (entry_offset I sb j) \<le> sz \<and> (qualifying I sb j \<longrightarrow> valid_entry I sb sz j)) \<longrightarrow>
          (\<exists>j. j < ucast (sb_count I sb) \<and> qualifying I sb j \<and>
             cs_superblob_scan I sb sz (ucast (sb_count I sb)) 0 no_best =
               Inr (Some (candidate I sb j)) \<and>
             entry_rank I sb j = entry_rank I sb w \<and>
             cd_hashType I (entry_cd I sb j) = cd_hashType I (entry_cd I sb w))) \<and>
         (\<forall>cd s ok out. cs_codedirectory_cdhash I D cd s = Inr (ok, out) \<longrightarrow>
            ok = (ucast (cd_hashType I cd) = CS_HASHTYPE_SHA1 \<or>
                  ucast (cd_hashType I cd) = CS_HASHTYPE_SHA256))"
proof -
  let ?ok = "\<forall>j. j < ucast (sb_count I sb) \<longrightarrow>
       ucast (entry_offset I sb j) \<le> sz \<and> (qualifying I sb j \<longrightarrow> valid_entry I sb sz j)"
  from hw have rw: "entry_rank I sb w = 4 \<or> entry_rank I sb w = 2"
    by (auto simp: entry_rank_def rank_scan_values)
  have top: "\<forall>k. k < ucast (sb_count I sb) \<and> qualifying I sb k \<longrightarrow>
       entry_rank I sb k \<le> entry_rank I sb w"
    using hw
  proof
    assume "ucast (cd_hashType I (entry_cd I sb w)) = CS_HASHTYPE_SHA384"
    then have "entry_rank I sb w = 4"
      by (simp add: entry_rank_def rank_scan_values)
    then show ?thesis
      by (simp add: entry_rank_def rank_scan_le_4)
  next
    assume "ucast (cd_hashType I (entry_cd I sb w)) = CS_HASHTYPE_SHA256_TRUNCATED \<and>
        (\<forall>k. k < ucast (sb_count I sb) \<and> qualifying I sb k \<longrightarrow>
             entry_rank I sb k \<le> entry_rank I sb w)"
    then show ?thesis
      by blast
  qed
  from rw have nz: "entry_rank I sb w \<noteq> 0"
    by auto
  have selected: "\<exists>j. j < ucast (sb_count I sb) \<and> qualifying I sb j \<and>
       ucast (entry_offset I sb j) \<le> sz \<and> valid_entry I sb sz j \<and>
       cs_superblob_scan I sb sz (ucast (sb_count I sb)) 0 no_best = Inr (Some (candidate I sb j)) \<and>
       entry_rank I sb j = entry_rank I sb w \<and>
       cd_hashType I (entry_cd I sb j) = cd_hashType I (entry_cd I sb w)" if ok: ?ok
  proof -
    from scan_picks [OF sb ok w(1,2) nz] obtain j
      where j: "j < ucast (sb_count I sb)" "qualifying I sb j"
        and scan: "cs_superblob_scan I sb sz (ucast (sb_count I sb)) 0 no_best =
          Inr (Some (candidate I sb j))"
        and jtop: "\<forall>k. k < ucast (sb_count I sb) \<and> qualifying I sb k \<longrightarrow>
          entry_rank I sb k \<le> entry_rank I sb j"
      by blast
    from jtop w top j have eq: "entry_rank I sb j = entry_rank I sb w"
      by (simp add: order_antisym)
    have "(ucast (cd_hashType I (entry_cd I sb j)) :: u32) = ucast (cd_hashType I (entry_cd I sb w))"
      using rw
    proof
      assume 4: "entry_rank I sb w = 4"
      with eq have "ucast (cd_hashType I (entry_cd I sb j)) = CS_HASHTYPE_SHA384"
        by (intro rank_scan_inverse(1)) (simp add: entry_rank_def)
      moreover from 4 have "ucast (cd_hashType I (entry_cd I sb w)) = CS_HASHTYPE_SHA384"
        by (intro rank_scan_inverse(1)) (simp add: entry_rank_def)
      ultimately show ?thesis
        by simp
    next
      assume 2: "entry_rank I sb w = 2"
      with eq have "ucast (cd_hashType I (entry_cd I sb j)) = CS_HASHTYPE_SHA256_TRUNCATED"
        by (intro rank_scan_inverse(2)) (simp add: entry_rank_def)
      moreover from 2 have "ucast (cd_hashType I (entry_cd I sb w)) = CS_HASHTYPE_SHA256_TRUNCATED"
        by (intro rank_scan_inverse(2)) (simp add: entry_rank_def)
      ultimately show ?thesis
        by simp
    qed
    then have same: "cd_hashType I (entry_cd I sb j) = cd_hashType I (entry_cd I sb w)"
      by (rule ucast8_32_inj)
    from ok j have "ucast (entry_offset I sb j) \<le> sz" "valid_entry I sb sz j"
      by simp_all
    with j scan eq same show ?thesis
      by blast
  qed
  have fails: "cs_superblob_cdhash I D sb sz = Inr failed"
  proof (cases ?ok)
    case True
    from selected [OF True] obtain j
      where off: "ucast (entry_offset I sb j) \<le> sz" and val: "valid_entry I sb sz j"
        and scan: "cs_superblob_scan I sb sz (ucast (sb_count I sb)) 0 no_best =
          Inr (Some (candidate I sb j))"
        and same: "cd_hashType I (entry_cd I sb j) = cd_hashType I (entry_cd I sb w)"
      by blast
    from cs_superblob_cdhash_selected [OF sb scan off val]
    have "cs_superblob_cdhash I D sb sz = Inr (cd_digest I D (entry_cd I sb j))" .
    also have "cd_digest I D (entry_cd I sb j) = failed"
      unfolding cd_digest_def same using hw by (auto simp: hash_type_defs)
    finally show ?thesis .
  next
    case False
    then obtain j where j: "j < ucast (sb_count I sb)"
      and bad: "sz < ucast (entry_offset I sb j) \<or> (qualifying I sb j \<and> \<not> valid_entry I sb sz j)"
      by (auto simp: not_le)
    from scan_fails [OF superblob_in_imageD [OF sb] _ j bad, of 0 no_best]
    have "cs_superblob_scan I sb sz (ucast (sb_count I sb)) 0 no_best = Inr None"
      by simp
    then show ?thesis
      by (intro cs_superblob_cdhash_scan_failed [OF sb]) simp
  qed
  have only: "\<forall>cd s ok out. cs_codedirectory_cdhash I D cd s = Inr (ok, out) \<longrightarrow>
            ok = (ucast (cd_hashType I cd) = CS_HASHTYPE_SHA1 \<or>
                  ucast (cd_hashType I cd) = CS_HASHTYPE_SHA256)"
    by (blast dest: cs_codedirectory_cdhash_true_iff)
  from selected fails only show ?thesis
    by blast
qed

theorem unhashable_winner_fails_witness:
  "cs_superblob_cdhash (in_file (signed_file 4 2)) toy_digests 0x100000100 0x200 = Inr failed \<and>
   cs_superblob_cdhash (in_file (signed_file 1 3)) toy_digests 0x100000100 0x200 = Inr failed"
proof
  show "cs_superblob_cdhash (in_file (signed_file 4 2)) toy_digests 0x100000100 0x200 = Inr failed"
    using unhashable_winner_fails
      [of "in_file (signed_file 4 2)" "0x100000100" "0x200" 0 1 toy_digests]
    by (simp add: signed_superblob signed_qualifying signed_cds signed_valid signed_ranks
        rank_values hash_type_defs)
  show "cs_superblob_cdhash (in_file (signed_file 1 3)) toy_digests 0x100000100 0x200 = Inr failed"
  proof -
    let ?I = "in_file (signed_file 1 3)"
    have top: "ucast (cd_hashType ?I (entry_cd ?I 0x100000100 1)) = CS_HASHTYPE_SHA384 \<or>
       (ucast (cd_hashType ?I (entry_cd ?I 0x100000100 1)) = CS_HASHTYPE_SHA256_TRUNCATED \<and>
        (\<forall>k. k < ucast (sb_count ?I 0x100000100) \<and> qualifying ?I 0x100000100 k \<longrightarrow>
             entry_rank ?I 0x100000100 k \<le> entry_rank ?I 0x100000100 1))"
      by (auto simp: signed_superblob signed_cds signed_ranks rank_values hash_type_defs
          index_lt_2)
    have low: "ucast (cd_hashType ?I (entry_cd ?I 0x100000100 0)) = CS_HASHTYPE_SHA1 \<or>
       ucast (cd_hashType ?I (entry_cd ?I 0x100000100 0)) = CS_HASHTYPE_SHA256"
      by (simp add: signed_cds hash_type_defs)
    show ?thesis
      by (rule unhashable_winner_fails
          [OF signed_superblob(1) _ signed_qualifying(2) signed_valid(2) top
            _ signed_qualifying(1) signed_valid(1) low, THEN conjunct1])
        (simp_all add: signed_superblob signed_ranks rank_values)
  qed
qed

text \<open>
  C8: \<open>cs_superblob_cdhash\<close> fails as soon as an index entry, of a code-directory slot type
  or not, has an offset greater than \<open>size\<close>; it fails when \<open>cs_codedirectory_validate\<close>
  fails for an entry of a code-directory slot type, whatever the other entries hold; and
  when no entry fails, the entry selected is the first one of the highest rank: a tie in
  rank keeps the lower index.
\<close>

theorem superblob_failures_and_ties:
  assumes sb: "superblob_in_image I sb sz"
  shows "(\<forall>j. j < ucast (sb_count I sb) \<and> sz < ucast (entry_offset I sb j) \<longrightarrow>
            cs_superblob_cdhash I D sb sz = Inr failed) \<and>
         (\<forall>j. j < ucast (sb_count I sb) \<and> qualifying I sb j \<and> \<not> valid_entry I sb sz j \<longrightarrow>
            cs_superblob_cdhash I D sb sz = Inr failed) \<and>
         ((\<forall>j. j < ucast (sb_count I sb) \<longrightarrow>
              ucast (entry_offset I sb j) \<le> sz \<and> (qualifying I sb j \<longrightarrow> valid_entry I sb sz j)) \<longrightarrow>
          (\<forall>w. w < ucast (sb_count I sb) \<and> qualifying I sb w \<and> entry_rank I sb w \<noteq> 0 \<and>
               (\<forall>k. k < ucast (sb_count I sb) \<and> qualifying I sb k \<longrightarrow>
                    entry_rank I sb k \<le> entry_rank I sb w) \<and>
               (\<forall>k. k < w \<and> qualifying I sb k \<longrightarrow> entry_rank I sb k < entry_rank I sb w) \<longrightarrow>
               cs_superblob_scan I sb sz (ucast (sb_count I sb)) 0 no_best =
                 Inr (Some (candidate I sb w)) \<and>
               cs_superblob_cdhash I D sb sz = Inr (cd_digest I D (entry_cd I sb w))))"
proof (intro conjI allI impI)
  fix j
  assume "j < ucast (sb_count I sb) \<and> sz < ucast (entry_offset I sb j)"
  then have j: "j < ucast (sb_count I sb)"
    and bad: "sz < ucast (entry_offset I sb j) \<or> (qualifying I sb j \<and> \<not> valid_entry I sb sz j)"
    by simp_all
  from scan_fails [OF superblob_in_imageD [OF sb] _ j bad, of 0 no_best]
  have "cs_superblob_scan I sb sz (ucast (sb_count I sb)) 0 no_best = Inr None"
    by simp
  then show "cs_superblob_cdhash I D sb sz = Inr failed"
    by (intro cs_superblob_cdhash_scan_failed [OF sb]) simp
next
  fix j
  assume "j < ucast (sb_count I sb) \<and> qualifying I sb j \<and> \<not> valid_entry I sb sz j"
  then have j: "j < ucast (sb_count I sb)"
    and bad: "sz < ucast (entry_offset I sb j) \<or> (qualifying I sb j \<and> \<not> valid_entry I sb sz j)"
    by simp_all
  from scan_fails [OF superblob_in_imageD [OF sb] _ j bad, of 0 no_best]
  have "cs_superblob_scan I sb sz (ucast (sb_count I sb)) 0 no_best = Inr None"
    by simp
  then show "cs_superblob_cdhash I D sb sz = Inr failed"
    by (intro cs_superblob_cdhash_scan_failed [OF sb]) simp
next
  fix w
  assume ok: "\<forall>j. j < ucast (sb_count I sb) \<longrightarrow>
      ucast (entry_offset I sb j) \<le> sz \<and> (qualifying I sb j \<longrightarrow> valid_entry I sb sz j)"
    and "w < ucast (sb_count I sb) \<and> qualifying I sb w \<and> entry_rank I sb w \<noteq> 0 \<and>
      (\<forall>k. k < ucast (sb_count I sb) \<and> qualifying I sb k \<longrightarrow>
           entry_rank I sb k \<le> entry_rank I sb w) \<and>
      (\<forall>k. k < w \<and> qualifying I sb k \<longrightarrow> entry_rank I sb k < entry_rank I sb w)"
  then have w: "w < ucast (sb_count I sb)" "qualifying I sb w" "entry_rank I sb w \<noteq> 0"
    and top: "\<forall>k. k < ucast (sb_count I sb) \<and> qualifying I sb k \<longrightarrow>
           entry_rank I sb k \<le> entry_rank I sb w"
    and first: "\<forall>k. k < w \<and> qualifying I sb k \<longrightarrow> entry_rank I sb k < entry_rank I sb w"
    by blast+
  from scan_first_best [OF sb ok w top first]
  show scan: "cs_superblob_scan I sb sz (ucast (sb_count I sb)) 0 no_best =
      Inr (Some (candidate I sb w))" .
  from ok w have "ucast (entry_offset I sb w) \<le> sz" "valid_entry I sb sz w"
    by simp_all
  from cs_superblob_cdhash_selected [OF sb scan this]
  show "cs_superblob_cdhash I D sb sz = Inr (cd_digest I D (entry_cd I sb w))" .
qed

theorem superblob_failures_and_ties_witness:
  "\<not> qualifying (in_file far_file) 0x100000100 1 \<and>
   cs_superblob_cdhash (in_file far_file) toy_digests 0x100000100 0x200 = Inr failed \<and>
   valid_entry (in_file badcd_file) 0x100000100 0x200 0 \<and>
   cs_superblob_cdhash (in_file badcd_file) toy_digests 0x100000100 0x200 = Inr failed \<and>
   cs_superblob_cdhash (in_file (signed_file 2 2)) toy_digests 0x100000100 0x200 =
     Inr (True, Some (88 # replicate 19 0x22))"
proof (intro conjI)
  show "\<not> qualifying (in_file far_file) 0x100000100 1"
    by (rule far_superblob)
  show "cs_superblob_cdhash (in_file far_file) toy_digests 0x100000100 0x200 = Inr failed"
    using superblob_failures_and_ties [OF far_superblob(1), of toy_digests,
        THEN conjunct1, rule_format, of 1]
    by (simp add: far_superblob)
  show "valid_entry (in_file badcd_file) 0x100000100 0x200 0"
    by (rule badcd_valid)
  show "cs_superblob_cdhash (in_file badcd_file) toy_digests 0x100000100 0x200 = Inr failed"
    using superblob_failures_and_ties [OF badcd_superblob(1), of toy_digests,
        THEN conjunct2, THEN conjunct1, rule_format, of 1]
    by (simp add: badcd_superblob badcd_invalid)
  show "cs_superblob_cdhash (in_file (signed_file 2 2)) toy_digests 0x100000100 0x200 =
     Inr (True, Some (88 # replicate 19 0x22))"
  proof -
    let ?I = "in_file (signed_file 2 2)"
    have ok: "\<forall>j. j < ucast (sb_count ?I 0x100000100) \<longrightarrow>
        ucast (entry_offset ?I 0x100000100 j) \<le> (0x200 :: u64) \<and>
        (qualifying ?I 0x100000100 j \<longrightarrow> valid_entry ?I 0x100000100 0x200 j)"
      by (auto simp: signed_superblob signed_entries signed_valid index_lt_2)
    have first: "(0 :: u64) < ucast (sb_count ?I 0x100000100) \<and> qualifying ?I 0x100000100 0 \<and>
        entry_rank ?I 0x100000100 0 \<noteq> 0 \<and>
        (\<forall>k. k < ucast (sb_count ?I 0x100000100) \<and> qualifying ?I 0x100000100 k \<longrightarrow>
             entry_rank ?I 0x100000100 k \<le> entry_rank ?I 0x100000100 0) \<and>
        (\<forall>k. k < 0 \<and> qualifying ?I 0x100000100 k \<longrightarrow>
             entry_rank ?I 0x100000100 k < entry_rank ?I 0x100000100 0)"
      by (auto simp: signed_superblob signed_qualifying signed_ranks rank_values index_lt_2)
    from superblob_failures_and_ties [OF signed_superblob(1), of 2 2 toy_digests,
        THEN conjunct2, THEN conjunct2, rule_format, OF ok [rule_format] first]
    show ?thesis
      by (simp add: signed_cds cd_digest_def hash_type_defs toy_sha256)
  qed
qed

text \<open>
  C10: a code directory of rank 0 is never the best candidate: what the loop returns is
  the initial \<open>NULL\<close> or an entry of a rank other than 0. So when every code-directory entry
  is valid and of rank 0, the loop ends with \<open>best_cd = NULL\<close> and \<open>cs_superblob_cdhash\<close>
  fails, as it does when there is no code directory at all.
\<close>

theorem unranked_never_selected:
  assumes sb: "superblob_in_image I sb sz"
  shows "(\<forall>b. cs_superblob_scan I sb sz (ucast (sb_count I sb)) 0 no_best = Inr (Some b) \<longrightarrow>
            b = no_best \<or>
            (\<exists>j. j < ucast (sb_count I sb) \<and> qualifying I sb j \<and> b = candidate I sb j \<and>
                 entry_rank I sb j \<noteq> 0)) \<and>
         ((\<forall>j. j < ucast (sb_count I sb) \<longrightarrow>
              ucast (entry_offset I sb j) \<le> sz \<and>
              (qualifying I sb j \<longrightarrow> valid_entry I sb sz j \<and> entry_rank I sb j = 0)) \<longrightarrow>
          cs_superblob_scan I sb sz (ucast (sb_count I sb)) 0 no_best = Inr (Some no_best) \<and>
          cs_superblob_cdhash I D sb sz = Inr failed)"
proof (intro conjI allI impI)
  fix b
  assume b: "cs_superblob_scan I sb sz (ucast (sb_count I sb)) 0 no_best = Inr (Some b)"
  from scan_total [OF superblob_in_imageD [OF sb], of 0 no_best] b
  show "b = no_best \<or>
      (\<exists>j. j < ucast (sb_count I sb) \<and> qualifying I sb j \<and> b = candidate I sb j \<and>
           entry_rank I sb j \<noteq> 0)"
    by (auto simp: no_best_def word_neq_0_conv)
next
  assume ok: "\<forall>j. j < ucast (sb_count I sb) \<longrightarrow>
      ucast (entry_offset I sb j) \<le> sz \<and>
      (qualifying I sb j \<longrightarrow> valid_entry I sb sz j \<and> entry_rank I sb j = 0)"
  from scan_nothing_ranked [OF sb ok]
  show scan: "cs_superblob_scan I sb sz (ucast (sb_count I sb)) 0 no_best = Inr (Some no_best)" .
  then show "cs_superblob_cdhash I D sb sz = Inr failed"
    by (intro cs_superblob_cdhash_scan_failed [OF sb]) simp
qed

theorem unranked_never_selected_witness:
  "cs_superblob_scan (in_file (signed_file 0 9)) 0x100000100 0x200 2 0 no_best =
     Inr (Some no_best) \<and>
   cs_superblob_cdhash (in_file (signed_file 0 9)) toy_digests 0x100000100 0x200 = Inr failed"
  using unranked_never_selected [OF signed_superblob(1), of 0 9 toy_digests,
      THEN conjunct2]
  by (simp add: signed_superblob signed_entries signed_qualifying signed_valid signed_ranks
      rank_values index_lt_2)

section \<open>The load-command walk\<close>

text \<open>
  A load command with \<open>cmdsize = 0\<close> inside the table leaves \<open>lc_p\<close> where it is: the walk
  of \<open>macho_validate\<close> never returns.
\<close>

lemma macho_validate_walk_stuck:
  assumes "lc_p < lc_end" and "load32 I (lc_p + off_cmdsize) = Inr 0"
  shows "macho_validate_walk I lc_p lc_end = None"
proof (rule ccontr)
  assume "macho_validate_walk I lc_p lc_end \<noteq> None"
  then obtain y where y: "macho_validate_walk I lc_p lc_end = Some y"
    by auto
  have "\<not> (lc_p < lc_end \<and> load32 I (lc_p + off_cmdsize) = Inr 0)"
  proof (rule macho_validate_walk.raw_induct
      [where P = "\<lambda>I p e y. \<not> (p < e \<and> load32 I (p + off_cmdsize) = Inr 0)", OF _ y])
    fix walk I p e r
    assume IH: "\<And>I p e y. walk I p e = Some y \<Longrightarrow>
        \<not> (p < e \<and> load32 I (p + off_cmdsize) = Inr 0)"
      and body: "(if p < e then
          (case load32 I (p + off_cmdsize) of
             Inl e \<Rightarrow> Some (Inl e)
           | Inr cmdsize \<Rightarrow>
               if cmdsize \<ge> 0x80000000 then Some (Inr False)
               else (let lc_next = p + ucast cmdsize in
                     if lc_next > e then Some (Inr False)
                     else walk I lc_next e))
        else Some (Inr True)) = Some r"
    show "\<not> (p < e \<and> load32 I (p + off_cmdsize) = Inr 0)"
    proof
      assume stuck: "p < e \<and> load32 I (p + off_cmdsize) = Inr 0"
      with body have "walk I p e = Some r"
        by (auto split: if_splits)
      from IH [OF this] stuck show False
        by simp
    qed
  qed
  with assms show False
    by simp
qed

lemma oob_walk:
  "macho_validate_walk (in_file oob_file) 0x100000020 0x100001020 = Some (Inl OutOfBounds)"
  apply (subst macho_validate_walk.simps)
  apply (simp add: off_cmdsize_def load32_def in_file_bounds oob_fields)
  apply (subst macho_validate_walk.simps)
  apply (simp add: off_cmdsize_def load32_def in_file_bounds)
  done

text \<open>
  C1 (code bug): no parsing step of \<open>compute_cdhash\<close> reads outside \<open>[0, size)\<close>, and the
  load-command walk of \<open>macho_validate\<close> stays inside the buffer even when the header size
  plus \<open>sizeofcmds\<close> exceeds \<open>size\<close>. The code checks \<open>sizeofcmds > size\<close> without the 32
  bytes of the header and reads \<open>cmdsize\<close> of any command that starts before \<open>lc_end\<close>: on
  the 4096-byte file \<open>oob_file\<close> the second iteration of the walk reads the four bytes at
  offsets 4096 to 4099. (The part of the claim on the super-blob index holds: an entry with
  an offset greater than \<open>size\<close> makes the loop fail, and \<open>csblob_cdhash\<close> reads nothing
  outside the buffer, lemma \<open>csblob_cdhash_in_bounds\<close>.)
\<close>

theorem compute_cdhash_reads_past_buffer:
  "compute_cdhash oob_file D 0x100000000 0x1000 = Some (Inl OutOfBounds)"
  using oob_walk
  by (simp add: compute_cdhash_def macho_identify_def macho_validate_def in_file_def [symmetric]
      off_sizeofcmds_def sizeof_mach_header_64_def load32_def in_file_bounds oob_fields
      MH_MAGIC_64_def)

text \<open>
  C2 (code bug): \<open>compute_cdhash\<close> terminates on every buffer, also on one with a load
  command whose \<open>cmdsize\<close> is 0. On the 4096-byte file \<open>hang_file\<close> the walk of
  \<open>macho_validate\<close> stays at the first load command for ever, and \<open>compute_cdhash\<close> does
  not return.
\<close>

theorem compute_cdhash_zero_cmdsize_diverges:
  "compute_cdhash hang_file D 0x100000000 0x1000 = None"
proof -
  have "macho_validate_walk (in_file hang_file) 0x100000020 0x100000028 = None"
    by (rule macho_validate_walk_stuck)
      (simp_all add: off_cmdsize_def load32_def in_file_bounds hang_fields)
  then show ?thesis
    by (simp add: compute_cdhash_def macho_identify_def macho_validate_def in_file_def [symmetric]
        off_sizeofcmds_def sizeof_mach_header_64_def load32_def in_file_bounds hang_fields
        MH_MAGIC_64_def)
qed

section \<open>The signature region and the entry point: claims C9 and C5\<close>

text \<open>
  The search of \<open>macho_find_load_command\<close> follows the commands the walk of \<open>macho_validate\<close>
  has followed: where the walk has returned true, the search returns. What it returns is
  \<open>NULL\<close> or a command whose \<open>cmd\<close> is the one sought. So \<open>compute_cdhash\<close> returns exactly
  when \<open>macho_validate\<close> does.
\<close>

lemma macho_find_load_command_returns:
  assumes walk: "macho_validate_walk I lc_p lc_end = Some (Inr True)"
    and sc: "load32 I (mh + off_sizeofcmds) = Inr sizeofcmds"
    and e: "lc_end = mh + sizeof_mach_header_64 + ucast sizeofcmds"
    and lc: "(if lc = NULL then Inr (mh + sizeof_mach_header_64)
              else (case load32 I (lc + off_cmdsize) of
                      Inl e \<Rightarrow> Inl e
                    | Inr cmdsize \<Rightarrow> Inr (lc + ucast cmdsize))) = Inr lc_p"
  shows "\<exists>r. macho_find_load_command I mh sz command lc = Some r"
proof -
  let ?step = "\<lambda>I mh lc. (if lc = NULL then Inr (mh + sizeof_mach_header_64)
              else (case load32 I (lc + off_cmdsize) of
                      Inl e \<Rightarrow> Inl e
                    | Inr cmdsize \<Rightarrow> Inr (lc + ucast cmdsize)))"
  have "(Inr True :: bool res) = Inr True \<longrightarrow>
      (\<forall>mh lc sizeofcmds. load32 I (mh + off_sizeofcmds) = Inr sizeofcmds \<and>
          lc_end = mh + sizeof_mach_header_64 + ucast sizeofcmds \<and> ?step I mh lc = Inr lc_p \<longrightarrow>
          (\<exists>r. macho_find_load_command I mh sz command lc = Some r))"
  proof (rule macho_validate_walk.raw_induct
      [where P = "\<lambda>I p e y. y = Inr True \<longrightarrow>
        (\<forall>mh lc sizeofcmds. load32 I (mh + off_sizeofcmds) = Inr sizeofcmds \<and>
            e = mh + sizeof_mach_header_64 + ucast sizeofcmds \<and> ?step I mh lc = Inr p \<longrightarrow>
            (\<exists>r. macho_find_load_command I mh sz command lc = Some r))", OF _ walk])
    fix walk I p e y
    assume IH: "\<And>I p e y. walk I p e = Some y \<Longrightarrow> y = Inr True \<longrightarrow>
        (\<forall>mh lc sizeofcmds. load32 I (mh + off_sizeofcmds) = Inr sizeofcmds \<and>
            e = mh + sizeof_mach_header_64 + ucast sizeofcmds \<and> ?step I mh lc = Inr p \<longrightarrow>
            (\<exists>r. macho_find_load_command I mh sz command lc = Some r))"
      and body: "(if p < e then
          (case load32 I (p + off_cmdsize) of
             Inl e \<Rightarrow> Some (Inl e)
           | Inr cmdsize \<Rightarrow>
               if cmdsize \<ge> 0x80000000 then Some (Inr False)
               else (let lc_next = p + ucast cmdsize in
                     if lc_next > e then Some (Inr False)
                     else walk I lc_next e))
        else Some (Inr True)) = Some y"
    show "y = Inr True \<longrightarrow>
        (\<forall>mh lc sizeofcmds. load32 I (mh + off_sizeofcmds) = Inr sizeofcmds \<and>
            e = mh + sizeof_mach_header_64 + ucast sizeofcmds \<and> ?step I mh lc = Inr p \<longrightarrow>
            (\<exists>r. macho_find_load_command I mh sz command lc = Some r))"
    proof (intro impI allI)
      fix mh lc sizeofcmds
      assume y: "y = Inr True"
        and a: "load32 I (mh + off_sizeofcmds) = Inr sizeofcmds \<and>
            e = mh + sizeof_mach_header_64 + ucast sizeofcmds \<and> ?step I mh lc = Inr p"
      then have nxt: "macho_next_load_command I mh sz lc = Inr (if p \<ge> e then NULL else p)"
        by (simp add: macho_next_load_command_def)
      show "\<exists>r. macho_find_load_command I mh sz command lc = Some r"
      proof (cases "p < e \<and> p \<noteq> NULL")
        case False
        with nxt show ?thesis
          by (subst macho_find_load_command.simps) (auto simp: not_less)
      next
        case True
        then have p: "p < e" "p \<noteq> NULL"
          by simp_all
        from body p y obtain s where s: "load32 I (p + off_cmdsize) = Inr s"
          by (cases "load32 I (p + off_cmdsize)") auto
        with body p y have w: "walk I (p + ucast s) e = Some (Inr True)"
          by (auto simp: Let_def split: if_splits)
        from p s have "?step I mh p = Inr (p + ucast s)"
          by simp
        with IH [OF w] a
        have rec: "\<exists>r. macho_find_load_command I mh sz command p = Some r"
          by blast
        show ?thesis
        proof (cases "load32 I p")
          case (Inl f)
          with nxt p show ?thesis
            by (subst macho_find_load_command.simps) (simp add: not_le)
        next
          case (Inr cmd)
          with nxt p rec show ?thesis
            by (subst macho_find_load_command.simps) (simp add: not_le)
        qed
      qed
    qed
  qed
  with sc e lc show ?thesis
    by blast
qed

lemma macho_find_load_command_found:
  assumes "macho_find_load_command I mh sz command lc = Some (Inr c)"
  shows "c = NULL \<or> load32 I c = Inr command"
proof -
  have "\<forall>c'. (Inr c :: addr res) = Inr c' \<longrightarrow> c' = NULL \<or> load32 I c' = Inr command"
  proof (rule macho_find_load_command.raw_induct
      [where P = "\<lambda>I mh sz command lc y.
        \<forall>c. y = Inr c \<longrightarrow> c = NULL \<or> load32 I c = Inr command", OF _ assms])
    fix find I mh sz command lc y
    assume IH: "\<And>I mh sz command lc y. find I mh sz command lc = Some y \<Longrightarrow>
        \<forall>c. y = Inr c \<longrightarrow> c = NULL \<or> load32 I c = Inr command"
      and body: "(case macho_next_load_command I mh sz lc of
          Inl e \<Rightarrow> Some (Inl e)
        | Inr loadcmd \<Rightarrow>
            if loadcmd = NULL then Some (Inr loadcmd)
            else (case load32 I loadcmd of
                    Inl e \<Rightarrow> Some (Inl e)
                  | Inr cmd \<Rightarrow>
                      if cmd = command then Some (Inr loadcmd)
                      else find I mh sz command loadcmd)) = Some y"
    show "\<forall>c. y = Inr c \<longrightarrow> c = NULL \<or> load32 I c = Inr command"
    proof (intro allI impI)
      fix c
      assume y: "y = Inr c"
      with body obtain n where n: "macho_next_load_command I mh sz lc = Inr n"
        by (cases "macho_next_load_command I mh sz lc") auto
      show "c = NULL \<or> load32 I c = Inr command"
      proof (cases "n = NULL")
        case True
        with body n y show ?thesis
          by simp
      next
        case False
        with body n y obtain cmd where cmd: "load32 I n = Inr cmd"
          by (cases "load32 I n") auto
        show ?thesis
        proof (cases "cmd = command")
          case True
          with body n y False cmd show ?thesis
            by auto
        next
          case ne: False
          with body n False cmd have "find I mh sz command n = Some y"
            by simp
          from IH [OF this] y show ?thesis
            by simp
        qed
      qed
    qed
  qed
  then show ?thesis
    by simp
qed

lemma macho_find_load_command_after_validate:
  assumes "macho_validate I mh sz = Some (Inr True)"
  shows "\<exists>r. macho_find_load_command I mh sz command NULL = Some r"
proof -
  from assms obtain ident where i: "macho_identify I mh sz = Inr ident"
    by (cases "macho_identify I mh sz") (auto simp: macho_validate_def)
  with assms have ident: ident
    by (auto simp: macho_validate_def split: if_splits)
  with assms i obtain sc where sc: "load32 I (mh + off_sizeofcmds) = Inr sc"
    by (cases "load32 I (mh + off_sizeofcmds)") (auto simp: macho_validate_def)
  with assms i ident
  have "macho_validate_walk I (mh + sizeof_mach_header_64)
      (mh + sizeof_mach_header_64 + ucast sc) = Some (Inr True)"
    by (auto simp: macho_validate_def Let_def split: if_splits)
  from macho_find_load_command_returns [OF this sc refl, of NULL]
  show ?thesis
    by simp
qed

lemma compute_cdhash_macho_returns:
  assumes "macho_validate I mh sz = Some (Inr True)"
  shows "\<exists>r. compute_cdhash_macho I D mh sz = Some r"
proof -
  from macho_find_load_command_after_validate [OF assms]
  obtain r where "macho_find_load_command I mh sz LC_CODE_SIGNATURE NULL = Some r"
    by blast
  then show ?thesis
    by (auto simp: compute_cdhash_macho_def Let_def split: sum.splits)
qed

lemma compute_cdhash_diverges_iff:
  "compute_cdhash m D file sz = None \<longleftrightarrow>
     macho_validate \<lparr>bytes_at = m, base = file, extent = sz\<rparr> file sz = None"
proof -
  let ?I = "\<lparr>bytes_at = m, base = file, extent = sz\<rparr>"
  show ?thesis
  proof (cases "macho_validate ?I file sz")
    case None
    then have "macho_identify ?I file sz = Inr True"
      by (cases "macho_identify ?I file sz") (auto simp: macho_validate_def split: if_splits)
    with None show ?thesis
      by (simp add: compute_cdhash_def)
  next
    case (Some v)
    show ?thesis
    proof (cases "v = Inr True")
      case True
      with Some have "\<exists>r. compute_cdhash_macho ?I D file sz = Some r"
        by (intro compute_cdhash_macho_returns) simp
      then obtain r where "compute_cdhash_macho ?I D file sz = Some r"
        by blast
      with Some True show ?thesis
        by (cases "macho_identify ?I file sz") (auto simp: compute_cdhash_def Let_def)
    next
      case False
      with Some show ?thesis
        by (cases "macho_identify ?I file sz"; cases v) (auto simp: compute_cdhash_def Let_def)
    qed
  qed
qed

text \<open>
  The region check of \<open>compute_cdhash_macho\<close>. When \<open>macho_find_load_command\<close> returns \<open>NULL\<close>,
  \<open>compute_cdhash_macho\<close> fails. When it returns a command whose 16 bytes are in the buffer,
  the result is that of \<open>csblob_cdhash\<close> on the region from \<open>header_base + dataoff\<close> to
  \<open>+ datasize\<close> if \<open>header_base < data_start < data_end \<le> header_base + size\<close>, and
  failure otherwise. For a buffer that does not wrap around the address space, the
  condition holds only for a region with \<open>dataoff > 0\<close> and \<open>datasize > 0\<close> that lies
  within the \<open>size\<close> bytes of the buffer without wrapping.
\<close>

lemma compute_cdhash_macho_checks_region:
  fixes I :: image and D :: digests and mh sz cs_cmd :: u64
  defines "dataoff \<equiv> peek32 I (cs_cmd + off_dataoff)"
    and "datasize \<equiv> peek32 I (cs_cmd + off_datasize)"
  defines "data_start \<equiv> mh + ucast dataoff"
  defines "data_end \<equiv> data_start + ucast datasize"
  assumes find: "macho_find_load_command I mh sz LC_CODE_SIGNATURE NULL = Some (Inr cs_cmd)"
  shows "(cs_cmd = NULL \<longrightarrow> compute_cdhash_macho I D mh sz = Some (Inr failed)) \<and>
         (cs_cmd \<noteq> NULL \<and> in_image I cs_cmd 16 \<longrightarrow>
            compute_cdhash_macho I D mh sz =
              (if mh < data_start \<and> data_start < data_end \<and> data_end \<le> mh + sz
               then Some (csblob_cdhash I D data_start (data_end - data_start))
               else Some (Inr failed))) \<and>
         (mh < data_start \<and> data_start < data_end \<and> data_end \<le> mh + sz \<and>
          unat mh + unat sz \<le> 2 ^ 64 \<longrightarrow>
            0 < dataoff \<and> 0 < datasize \<and> unat dataoff + unat datasize \<le> unat sz \<and>
            unat data_start = unat mh + unat dataoff \<and>
            unat data_end = unat mh + unat dataoff + unat datasize)"
proof (intro conjI impI)
  assume "cs_cmd = NULL"
  with find show "compute_cdhash_macho I D mh sz = Some (Inr failed)"
    by (simp add: compute_cdhash_macho_def)
next
  assume a: "cs_cmd \<noteq> NULL \<and> in_image I cs_cmd 16"
  then have img: "in_image I cs_cmd 16"
    by simp
  have "in_image I (cs_cmd + off_dataoff) 4"
    by (intro in_image_sub [OF img]) (simp_all add: off_dataoff_def)
  then have d: "load32 I (cs_cmd + off_dataoff) = Inr dataoff"
    unfolding dataoff_def by (rule load32_in)
  have "in_image I (cs_cmd + off_datasize) 4"
    by (intro in_image_sub [OF img]) (simp_all add: off_datasize_def)
  then have s: "load32 I (cs_cmd + off_datasize) = Inr datasize"
    unfolding datasize_def by (rule load32_in)
  from a find d s show "compute_cdhash_macho I D mh sz =
      (if mh < data_start \<and> data_start < data_end \<and> data_end \<le> mh + sz
       then Some (csblob_cdhash I D data_start (data_end - data_start))
       else Some (Inr failed))"
    by (simp add: compute_cdhash_macho_def Let_def data_start_def data_end_def)
next
  assume a: "mh < data_start \<and> data_start < data_end \<and> data_end \<le> mh + sz \<and>
      unat mh + unat sz \<le> 2 ^ 64"
  then have "mh < mh + ucast dataoff" "mh + ucast dataoff < mh + ucast dataoff + ucast datasize"
    "mh + ucast dataoff + ucast datasize \<le> mh + sz" "unat mh + unat sz \<le> 2 ^ 64"
    by (simp_all add: data_start_def data_end_def)
  from region_accepted_inside [OF this]
  have r: "0 < (ucast dataoff :: u64)" "0 < (ucast datasize :: u64)"
    "unat (ucast dataoff :: u64) + unat (ucast datasize :: u64) \<le> unat sz"
    "unat (mh + ucast dataoff) = unat mh + unat (ucast dataoff :: u64)"
    "unat (mh + ucast dataoff + ucast datasize) =
       unat mh + unat (ucast dataoff :: u64) + unat (ucast datasize :: u64)"
    by simp_all
  from r(1,2) have "0 < dataoff" "0 < datasize"
    by (simp_all add: word_neq_0_conv [symmetric] ucast32_64_eq0)
  with r(3-5) show "0 < dataoff" "0 < datasize" "unat dataoff + unat datasize \<le> unat sz"
    "unat data_start = unat mh + unat dataoff"
    "unat data_end = unat mh + unat dataoff + unat datasize"
    by (simp_all add: unat_ucast32 data_start_def data_end_def)
qed

text \<open>
  C9 (code bug): \<open>compute_cdhash\<close> for a Mach-O buffer fails when there is no
  \<open>LC_CODE_SIGNATURE\<close> command, and otherwise fails unless the signature region lies within
  the buffer; only then is the region handed to \<open>csblob_cdhash\<close>. The code checks the region
  that the command describes, but never that the command's own \<open>dataoff\<close> and \<open>datasize\<close>
  are in the buffer: \<open>macho_validate\<close> accepts every \<open>cmdsize\<close> below \<open>0x80000000\<close> that stays
  within \<open>sizeofcmds\<close>, also one smaller than the command read. On the 4096-byte file
  \<open>tail_file\<close>, \<open>macho_validate\<close> accepts the header, the search steps over the first command
  and returns the \<open>LC_CODE_SIGNATURE\<close> command at offset \<open>0xff8\<close>, whose \<open>cmdsize\<close> is 8, and
  \<open>compute_cdhash_macho\<close> reads its \<open>dataoff\<close> at offsets 4096 to 4099, outside the buffer:
  the call neither fails nor hands a region of the file to \<open>csblob_cdhash\<close>.
\<close>

theorem compute_cdhash_reads_past_command:
  "macho_validate (in_file tail_file) 0x100000000 0x1000 = Some (Inr True) \<and>
   macho_find_load_command (in_file tail_file) 0x100000000 0x1000 LC_CODE_SIGNATURE NULL =
     Some (Inr 0x100000ff8) \<and>
   \<not> in_image (in_file tail_file) (0x100000ff8 + off_dataoff) 4 \<and>
   compute_cdhash_macho (in_file tail_file) D 0x100000000 0x1000 = Some (Inl OutOfBounds) \<and>
   compute_cdhash tail_file D 0x100000000 0x1000 = Some (Inl OutOfBounds)"
proof -
  have m: "compute_cdhash_macho (in_file tail_file) D 0x100000000 0x1000 =
      Some (Inl OutOfBounds)"
    unfolding compute_cdhash_macho_def tail_find
    by (simp add: NULL_def load32_def in_file_bounds macho_defs)
  then have "compute_cdhash tail_file D 0x100000000 0x1000 = Some (Inl OutOfBounds)"
    by (simp add: compute_cdhash_def in_file_def [symmetric] tail_validate)
  with m show ?thesis
    by (simp add: tail_validate tail_find in_file_bounds off_dataoff_def)
qed

text \<open>
  C5: for every buffer and size, \<open>compute_cdhash\<close> has stored to the \<open>cdhash\<close> buffer if and
  only if it returns true; on every other path, the ones that fail, that read outside the
  buffer or that do not return, nothing is stored.
\<close>

theorem cdhash_written_iff_true:
  "cdhash_written (compute_cdhash m D file sz) = returned_true (compute_cdhash m D file sz)"
proof (cases "compute_cdhash m D file sz")
  case None
  then show ?thesis
    by (simp add: cdhash_written_def returned_true_def)
next
  case (Some r)
  show ?thesis
  proof (cases r)
    case (Inl e)
    with Some show ?thesis
      by (simp add: cdhash_written_def returned_true_def)
  next
    case (Inr h)
    obtain ok out where h: "h = (ok, out)"
      by (cases h)
    with Some Inr have "compute_cdhash m D file sz = Some (Inr (ok, out))"
      by simp
    then have "ok = (out \<noteq> None)"
      by (rule compute_cdhash_written)
    with Some Inr h show ?thesis
      by (simp add: cdhash_written_def returned_true_def)
  qed
qed

theorem cdhash_written_iff_true_witness:
  "cdhash_written (compute_cdhash (signed_file 1 2) toy_digests 0x100000000 0x1000) \<and>
   \<not> cdhash_written (compute_cdhash unsigned_file toy_digests 0x100000000 0x1000)"
  using cdhash_written_iff_true [of "signed_file 1 2" toy_digests "0x100000000" "0x1000"]
    cdhash_written_iff_true [of unsigned_file toy_digests "0x100000000" "0x1000"]
  by (simp add: returned_true_def signed_digest unsigned_fails failed_def)

end
